theory Spec2Isabelle
  imports Main "HOL-Library.Word"
begin

section \<open>Memory model\<close>

text \<open>
  The program is the class \<open>LinkedList\<close> of \<open>main.cpp\<close>: a singly linked chain of
  heap-allocated \<open>Node\<close>s, a \<open>head\<close> pointer and a \<open>length\<close> counter.

  A \<open>Node*\<close> is a 64-bit address with \<open>nullptr = 0\<close>; \<open>size_t\<close> is a 64-bit unsigned
  word (its \<open>+\<close> and \<open>-\<close> wrap); \<open>int\<close> is a 32-bit word, read signed when printed.
  The heap maps an address to the node allocated there, \<open>None\<close> where nothing is
  allocated. The heap may hold nodes that do not belong to the list.
\<close>

type_synonym addr = "64 word"
type_synonym size_t = "64 word"
type_synonym cint = "32 word"

record Node =
  n_value :: cint
  n_next :: addr

text \<open>
  The state is the list object (\<open>head\<close>, \<open>length'\<close>) together with the part of the
  world it acts on: the heap, the characters written to \<open>std::cout\<close> and to
  \<open>std::cerr\<close>, and \<open>freed\<close>, the log of the addresses handed to \<open>delete\<close>, oldest
  first.
\<close>

record state =
  heap :: "addr \<Rightarrow> Node option"
  head :: addr
  length' :: size_t
  cout :: string
  cerr :: string
  freed :: "addr list"

datatype exn = out_of_range string | bad_alloc

text \<open>
  What a call does: it returns a value, or throws an exception (both leave a state
  behind), or it has undefined behaviour (\<open>Fault\<close>: a null or dangling pointer is
  dereferenced, or an address that is not allocated is deleted). The loops that follow
  pointers until \<open>nullptr\<close> may run forever; they and the operations that call them
  return an \<open>option\<close>, \<open>None\<close> when the call does not return.
\<close>

datatype 'a outcome = Return 'a state | Throw exn state | Fault

definition bind :: "'a outcome \<Rightarrow> ('a \<Rightarrow> state \<Rightarrow> 'b outcome) \<Rightarrow> 'b outcome" where
  "bind m f = (case m of Return x s \<Rightarrow> f x s | Throw e s \<Rightarrow> Throw e s | Fault \<Rightarrow> Fault)"

definition bind_opt ::
  "'a outcome option \<Rightarrow> ('a \<Rightarrow> state \<Rightarrow> 'b outcome option) \<Rightarrow> 'b outcome option" where
  "bind_opt m f =
     (case m of None \<Rightarrow> None
      | Some (Return x s) \<Rightarrow> f x s
      | Some (Throw e s) \<Rightarrow> Some (Throw e s)
      | Some Fault \<Rightarrow> Some Fault)"

text \<open>\<open>p->value\<close>, \<open>p->next\<close>: reading through a pointer. \<open>None\<close> is the fault.\<close>

definition load :: "addr \<Rightarrow> state \<Rightarrow> Node option" where
  "load p s = (if p = 0 then None else heap s p)"

text \<open>\<open>p->next = q\<close>.\<close>

definition store_next :: "addr \<Rightarrow> addr \<Rightarrow> state \<Rightarrow> unit outcome" where
  "store_next p q s =
     (case load p s of
        None \<Rightarrow> Fault
      | Some n \<Rightarrow> Return () (s\<lparr>heap := (heap s)(p \<mapsto> n\<lparr>n_next := q\<rparr>)\<rparr>))"

text \<open>
  \<open>operator new\<close> is the runtime's: here it takes the lowest free non-null address, and
  throws \<open>std::bad_alloc\<close> when every address is taken. The proofs use only that the
  address it returns is non-null and was free.
\<close>

function find_free :: "(addr \<Rightarrow> Node option) \<Rightarrow> addr \<Rightarrow> addr option" where
  "find_free h a =
     (if a = 0 then None else if h a = None then Some a else find_free h (a + 1))"
  by pat_completeness auto
termination
proof (relation "measure (\<lambda>(h, a). if a = 0 then 0 else 2 ^ 64 - unat a)")
  show "wf (measure (\<lambda>(h :: addr \<Rightarrow> Node option, a :: addr). if a = 0 then 0 else 2 ^ 64 - unat a))"
    by simp
next
  fix h :: "addr \<Rightarrow> Node option" and a :: addr
  assume a: "a \<noteq> 0"
  have lt: "unat a < 2 ^ 64"
    using unsigned_less [of a] by simp
  show "((h, a + 1), (h, a)) \<in> measure (\<lambda>(h, a). if a = 0 then 0 else 2 ^ 64 - unat a)"
  proof (cases "a + 1 = 0")
    case True
    then show ?thesis using a lt by simp
  next
    case False
    then have "unat (a + 1) = Suc (unat a)"
      using unatSuc [of a] by (simp add: add.commute)
    then show ?thesis using a lt False by simp
  qed
qed

text \<open>\<open>new Node(v)\<close>: the constructor sets \<open>value(v), next(nullptr)\<close>.\<close>

definition new_Node :: "cint \<Rightarrow> state \<Rightarrow> addr outcome" where
  "new_Node v s =
     (case find_free (heap s) 1 of
        None \<Rightarrow> Throw bad_alloc s
      | Some a \<Rightarrow> Return a (s\<lparr>heap := (heap s)(a \<mapsto> \<lparr>n_value = v, n_next = 0\<rparr>)\<rparr>))"

text \<open>
  \<open>delete p\<close>: \<open>Node\<close> has no destructor of its own and \<open>next\<close> is a raw pointer, so
  exactly the one node at \<open>p\<close> is released. Deleting an address that is not allocated
  is the fault; deleting \<open>nullptr\<close> does nothing.
\<close>

definition delete_Node :: "addr \<Rightarrow> state \<Rightarrow> unit outcome" where
  "delete_Node p s =
     (if p = 0 then Return () s
      else case heap s p of
        None \<Rightarrow> Fault
      | Some n \<Rightarrow> Return () (s\<lparr>heap := (heap s)(p := None), freed := freed s @ [p]\<rparr>))"


text \<open>Writing to the two streams.\<close>

definition put_cout :: "string \<Rightarrow> state \<Rightarrow> state" where
  "put_cout str s = s\<lparr>cout := cout s @ str\<rparr>"

definition put_cerr :: "string \<Rightarrow> state \<Rightarrow> state" where
  "put_cerr str s = s\<lparr>cerr := cerr s @ str\<rparr>"

text \<open>
  \<open>operator<<\<close> for \<open>size_t\<close> and \<open>int\<close> is the library's: decimal digits, most
  significant first, a leading minus sign for a negative \<open>int\<close>.
\<close>

definition digit_char :: "nat \<Rightarrow> char" where
  "digit_char d = ''0123456789'' ! (d mod 10)"

function show_nat :: "nat \<Rightarrow> string" where
  "show_nat n = (if n < 10 then [digit_char n] else show_nat (n div 10) @ [digit_char (n mod 10)])"
  by pat_completeness auto
termination
  by (relation "measure (\<lambda>n. n)") auto

definition show_int :: "int \<Rightarrow> string" where
  "show_int i = (if i < 0 then CHR ''-'' # show_nat (nat (- i)) else show_nat (nat i))"

section \<open>The class LinkedList\<close>

text \<open>\<open>LinkedList() : head(nullptr), length(0) {}\<close>\<close>

definition LinkedList_ctor :: "state \<Rightarrow> state" where
  "LinkedList_ctor s = s\<lparr>head := 0, length' := 0\<rparr>"

definition size :: "state \<Rightarrow> size_t" where
  "size s = length' s"

definition empty :: "state \<Rightarrow> bool" where
  "empty s = (length' s = 0)"

text \<open>\<open>get_node\<close>: the loop \<open>for (size_t i = 0; i < index; ++i) curr = curr->next\<close>.\<close>

function get_node_loop :: "size_t \<Rightarrow> size_t \<Rightarrow> addr \<Rightarrow> state \<Rightarrow> addr outcome" where
  "get_node_loop index i cur s =
     (if i < index then
        (case load cur s of
           None \<Rightarrow> Fault
         | Some n \<Rightarrow> get_node_loop index (i + 1) (n_next n) s)
      else Return cur s)"
  by pat_completeness auto
termination
proof (relation "measure (\<lambda>(index, i, cur, s). unat index - unat i)")
  show "wf (measure (\<lambda>(index :: size_t, i :: size_t, cur :: addr, s :: state). unat index - unat i))"
    by simp
next
  fix index i :: size_t and cur :: addr and s :: state and n :: Node
  assume lt: "i < index"
  have lt': "unat i < unat index"
    using lt by (simp add: word_less_nat_alt)
  moreover have "unat index < 2 ^ 64"
    using unsigned_less [of index] by simp
  ultimately have "unat i + unat (1 :: size_t) < 2 ^ LENGTH(64)"
    by simp
  then have "unat (i + 1) = unat i + unat (1 :: size_t)"
    by (simp only: unat_add_lem)
  then have "unat (i + 1) = Suc (unat i)"
    by simp
  with lt' show "((index, i + 1, n_next n, s), (index, i, cur, s))
      \<in> measure (\<lambda>(index, i, cur, s). unat index - unat i)"
    by simp
qed

definition get_node :: "size_t \<Rightarrow> state \<Rightarrow> addr outcome" where
  "get_node index s =
     (if index \<ge> length' s then Throw (out_of_range ''Index out of range'') s
      else get_node_loop index 0 (head s) s)"

definition push_front :: "cint \<Rightarrow> state \<Rightarrow> unit outcome" where
  "push_front v s =
     bind (new_Node v s) (\<lambda>node s1.
     bind (store_next node (head s1) s1) (\<lambda>_ s2.
     Return () (s2\<lparr>head := node, length' := length' s2 + 1\<rparr>)))"

text \<open>\<open>push_back\<close>: the loop \<open>while (tail->next) tail = tail->next\<close>.\<close>

partial_function (option) push_back_loop :: "addr \<Rightarrow> state \<Rightarrow> addr outcome option" where
  "push_back_loop tail s =
     (case load tail s of
        None \<Rightarrow> Some Fault
      | Some n \<Rightarrow> if n_next n \<noteq> 0 then push_back_loop (n_next n) s else Some (Return tail s))"

declare push_back_loop.simps [code]

definition push_back :: "cint \<Rightarrow> state \<Rightarrow> unit outcome option" where
  "push_back v s =
     bind_opt (Some (new_Node v s)) (\<lambda>node s1.
     bind_opt
       (if head s1 = 0 then Some (Return () (s1\<lparr>head := node\<rparr>))
        else bind_opt (push_back_loop (head s1) s1) (\<lambda>tail s2. Some (store_next tail node s2)))
       (\<lambda>_ s3. Some (Return () (s3\<lparr>length' := length' s3 + 1\<rparr>))))"

definition insert_at :: "size_t \<Rightarrow> cint \<Rightarrow> state \<Rightarrow> unit outcome option" where
  "insert_at index v s =
     (if index > length' s then Some (Throw (out_of_range ''Index out of range'') s)
      else if index = 0 then Some (push_front v s)
      else if index = length' s then push_back v s
      else Some (
        bind (get_node (index - 1) s) (\<lambda>prev s1.
        bind (new_Node v s1) (\<lambda>node s2.
        case load prev s2 of
          None \<Rightarrow> Fault
        | Some pn \<Rightarrow>
            bind (store_next node (n_next pn) s2) (\<lambda>_ s3.
            bind (store_next prev node s3) (\<lambda>_ s4.
            Return () (s4\<lparr>length' := length' s4 + 1\<rparr>)))))))"

definition delete_at :: "size_t \<Rightarrow> state \<Rightarrow> bool outcome" where
  "delete_at index s =
     (if empty s then
        Return False (put_cerr (''Error: delete_at on empty list'' @ [CHR 0x0A]) s)
      else if index \<ge> length' s then
        Return False (put_cerr (''Error: index out of range'' @ [CHR 0x0A]) s)
      else if index = 0 then
        (let old = head s in
         case load (head s) s of
           None \<Rightarrow> Fault
         | Some hn \<Rightarrow>
             bind (delete_Node old (s\<lparr>head := n_next hn\<rparr>)) (\<lambda>_ s1.
             Return True (s1\<lparr>length' := length' s1 - 1\<rparr>)))
      else
        bind (get_node (index - 1) s) (\<lambda>prev s1.
        case load prev s1 of
          None \<Rightarrow> Fault
        | Some pn \<Rightarrow>
            (let target = n_next pn in
             case load target s1 of
               None \<Rightarrow> Fault
             | Some tn \<Rightarrow>
                 bind (store_next prev (n_next tn) s1) (\<lambda>_ s2.
                 bind (delete_Node target s2) (\<lambda>_ s3.
                 Return True (s3\<lparr>length' := length' s3 - 1\<rparr>))))))"

text \<open>
  \<open>delete_value\<close>: the loop \<open>while (curr)\<close> over \<open>prev\<close> and \<open>curr\<close>. The loop returns
  \<open>True\<close> where the source returns \<open>true\<close> from inside it, and \<open>False\<close> where the loop
  ends.
\<close>

partial_function (option) delete_value_loop ::
  "cint \<Rightarrow> addr \<Rightarrow> addr \<Rightarrow> state \<Rightarrow> bool outcome option" where
  "delete_value_loop v prev cur s =
     (if cur \<noteq> 0 then
        (case load cur s of
           None \<Rightarrow> Some Fault
         | Some cn \<Rightarrow>
             if n_value cn = v then
               Some (
                 bind (store_next prev (n_next cn) s) (\<lambda>_ s1.
                 bind (delete_Node cur s1) (\<lambda>_ s2.
                 Return True (s2\<lparr>length' := length' s2 - 1\<rparr>))))
             else delete_value_loop v cur (n_next cn) s)
      else Some (Return False s))"

declare delete_value_loop.simps [code]

definition delete_value :: "cint \<Rightarrow> state \<Rightarrow> bool outcome option" where
  "delete_value v s =
     (if empty s then
        Some (Return False (put_cerr (''Error: delete_value on empty list'' @ [CHR 0x0A]) s))
      else
        case load (head s) s of
          None \<Rightarrow> Some Fault
        | Some hn \<Rightarrow>
            if n_value hn = v then
              (let old = head s in
               Some (
                 bind (delete_Node old (s\<lparr>head := n_next hn\<rparr>)) (\<lambda>_ s1.
                 Return True (s1\<lparr>length' := length' s1 - 1\<rparr>))))
            else
              bind_opt (delete_value_loop v (head s) (n_next hn) s) (\<lambda>found s1.
              if found then Some (Return True s1)
              else Some (Return False (put_cerr (''Info: value not found'' @ [CHR 0x0A]) s1))))"

text \<open>\<open>print\<close>: the loop \<open>while (curr)\<close> writes one value, and the arrow if a node follows.\<close>

partial_function (option) print_loop :: "addr \<Rightarrow> state \<Rightarrow> unit outcome option" where
  "print_loop cur s =
     (if cur \<noteq> 0 then
        (case load cur s of
           None \<Rightarrow> Some Fault
         | Some n \<Rightarrow>
             print_loop (n_next n)
               (let s1 = put_cout (show_int (sint (n_value n))) s
                in if n_next n \<noteq> 0 then put_cout '' -> '' s1 else s1))
      else Some (Return () s))"

declare print_loop.simps [code]

definition print :: "state \<Rightarrow> unit outcome option" where
  "print s =
     bind_opt (print_loop (head s) (put_cout ''['' s)) (\<lambda>_ s1.
     Some (Return ()
       (put_cout [CHR 0x0A] (put_cout '')'' (put_cout (show_nat (unat (length' s1)))
         (put_cout ''] (size='' s1))))))"

text \<open>
  The call stack, for the destructor: \<open>depth\<close> is the number of calls that have been
  entered and have not returned yet, \<open>peak\<close> the greatest depth reached so far. A call
  enters a frame and leaves it when it returns.
\<close>

record stack =
  depth :: nat
  peak :: nat

definition enter :: "stack \<Rightarrow> stack" where
  "enter k = \<lparr>depth = depth k + 1, peak = max (peak k) (depth k + 1)\<rparr>"

definition leave :: "stack \<Rightarrow> stack" where
  "leave k = k\<lparr>depth := depth k - 1\<rparr>"

text \<open>
  \<open>~LinkedList\<close>: the loop \<open>while (curr)\<close> reads \<open>curr->next\<close>, then deletes \<open>curr\<close>.
  The destructor is one call. In its loop each \<open>delete curr\<close> is one call, which has
  returned (\<open>leave (enter k)\<close>) before the loop goes on: the loop itself calls nothing
  else, and it is not a call of the destructor from within itself.
\<close>

partial_function (option) dtor_loop ::
  "addr \<Rightarrow> state \<Rightarrow> stack \<Rightarrow> (unit outcome \<times> stack) option" where
  "dtor_loop cur s k =
     (if cur \<noteq> 0 then
        (case load cur s of
           None \<Rightarrow> Some (Fault, k)
         | Some n \<Rightarrow>
             (case delete_Node cur s of
                Return _ s1 \<Rightarrow> dtor_loop (n_next n) s1 (leave (enter k))
              | Throw e s1 \<Rightarrow> Some (Throw e s1, leave (enter k))
              | Fault \<Rightarrow> Some (Fault, enter k)))
      else Some (Return () s, k))"

declare dtor_loop.simps [code]

definition LinkedList_dtor :: "state \<Rightarrow> stack \<Rightarrow> (unit outcome \<times> stack) option" where
  "LinkedList_dtor s k =
     map_option (\<lambda>(r, k'). (r, leave k')) (dtor_loop (head s) s (enter k))"

section \<open>The list a state holds\<close>

text \<open>
  \<open>path h p cs q\<close>: starting at the pointer \<open>p\<close> and following \<open>next\<close>, the heap \<open>h\<close>
  holds exactly the nodes \<open>cs\<close> (address and value of each, in order), every one of them
  allocated at a non-null address, and the \<open>next\<close> of the last one is \<open>q\<close>. With
  \<open>q = 0\<close> the chain ends in \<open>nullptr\<close>.
\<close>

fun path :: "(addr \<Rightarrow> Node option) \<Rightarrow> addr \<Rightarrow> (addr \<times> cint) list \<Rightarrow> addr \<Rightarrow> bool" where
  "path h p [] q = (p = q)"
| "path h p ((a, v) # cs) q =
     (p = a \<and> a \<noteq> 0 \<and>
      (case h a of None \<Rightarrow> False | Some n \<Rightarrow> n_value n = v \<and> path h (n_next n) cs q))"

text \<open>
  \<open>cells_from h p k\<close> follows \<open>next\<close> from \<open>p\<close> for exactly \<open>k\<close> nodes and succeeds
  if all \<open>k\<close> are allocated and the \<open>next\<close> of the last is \<open>nullptr\<close>. \<open>cells s\<close> does
  so from \<open>head\<close> for \<open>length\<close> nodes: it is \<open>Some cs\<close> exactly when \<open>length\<close> is the
  number of nodes on the chain from \<open>head\<close> and the chain ends in \<open>nullptr\<close>.
\<close>

fun cells_from :: "(addr \<Rightarrow> Node option) \<Rightarrow> addr \<Rightarrow> nat \<Rightarrow> (addr \<times> cint) list option" where
  "cells_from h p 0 = (if p = 0 then Some [] else None)"
| "cells_from h p (Suc k) =
     (if p = 0 then None
      else case h p of
        None \<Rightarrow> None
      | Some n \<Rightarrow> map_option ((#) (p, n_value n)) (cells_from h (n_next n) k))"

definition cells :: "state \<Rightarrow> (addr \<times> cint) list option" where
  "cells s = cells_from (heap s) (head s) (unat (length' s))"

text \<open>
  The structural invariants: \<open>length\<close> is the number of nodes on the chain from \<open>head\<close>
  and the \<open>next\<close> of the last node is \<open>nullptr\<close> (\<open>cells s\<close> is \<open>Some cs\<close>); no node
  occurs twice on the chain (it has no cycle); \<open>head\<close> is \<open>nullptr\<close> exactly when
  \<open>length\<close> is 0.
\<close>

definition invariant :: "state \<Rightarrow> bool" where
  "invariant s =
     (case cells s of
        None \<Rightarrow> False
      | Some cs \<Rightarrow> distinct (map fst cs) \<and> (head s = 0 \<longleftrightarrow> length' s = 0))"

text \<open>
  The same in terms of the successor links themselves: \<open>successor h\<close> relates a node
  to the node its \<open>next\<close> points to, and \<open>reachable s\<close> is the set of nodes reachable
  from \<open>head\<close> by successor links, \<open>head\<close> included. \<open>structural_invariants\<close> adds to
  \<open>invariant\<close> what it implies (\<open>invariant_reachable\<close> below): \<open>length\<close> is the number of
  reachable nodes, every reachable node is allocated, and none reaches itself.
\<close>

definition successor :: "(addr \<Rightarrow> Node option) \<Rightarrow> (addr \<times> addr) set" where
  "successor h = {(a, b). a \<noteq> 0 \<and> b \<noteq> 0 \<and> (\<exists>n. h a = Some n \<and> n_next n = b)}"

definition reachable :: "state \<Rightarrow> addr set" where
  "reachable s = {a. head s \<noteq> 0 \<and> (head s, a) \<in> (successor (heap s))\<^sup>*}"

definition structural_invariants :: "state \<Rightarrow> bool" where
  "structural_invariants s \<longleftrightarrow>
     invariant s
     \<and> card (reachable s) = unat (length' s)
     \<and> (\<forall>a \<in> reachable s. a \<noteq> 0 \<and> heap s a \<noteq> None \<and> (a, a) \<notin> (successor (heap s))\<^sup>+)
     \<and> (head s = 0 \<longleftrightarrow> length' s = 0)"

text \<open>
  An operation keeps the invariants if it returns or throws, and the state it leaves
  satisfies them.
\<close>

definition keeps_invariant :: "'a outcome option \<Rightarrow> bool" where
  "keeps_invariant r =
     (case r of
        Some (Return x s') \<Rightarrow> structural_invariants s'
      | Some (Throw e s') \<Rightarrow> structural_invariants s'
      | Some Fault \<Rightarrow> False
      | None \<Rightarrow> False)"

text \<open>The text \<open>print\<close> is to write for the values \<open>vs\<close> and the size \<open>n\<close>.\<close>

fun arrows :: "cint list \<Rightarrow> string" where
  "arrows [] = []"
| "arrows [v] = show_int (sint v)"
| "arrows (v # w # vs) = show_int (sint v) @ '' -> '' @ arrows (w # vs)"

definition render :: "cint list \<Rightarrow> nat \<Rightarrow> string" where
  "render vs n = ''['' @ arrows vs @ ''] (size='' @ show_nat n @ '')'' @ [CHR 0x0A]"

text \<open>
  Two concrete states: the list \<open>[5, 10, 20]\<close> as \<open>push_back(10); push_back(20);
  push_front(5)\<close> builds it in an empty heap, and a newly constructed list.
\<close>

definition example_list :: state where
  "example_list =
     \<lparr>heap = [1 \<mapsto> \<lparr>n_value = 10, n_next = 2\<rparr>,
              2 \<mapsto> \<lparr>n_value = 20, n_next = 0\<rparr>,
              3 \<mapsto> \<lparr>n_value = 5, n_next = 1\<rparr>],
      head = 3, length' = 3, cout = [], cerr = [], freed = []\<rparr>"

definition empty_list :: state where
  "empty_list =
     LinkedList_ctor \<lparr>heap = Map.empty, head = 0, length' = 0, cout = [], cerr = [], freed = []\<rparr>"

text \<open>The two states between them: after \<open>push_back(10)\<close>, and after \<open>push_back(20)\<close>.\<close>

definition one_node :: state where
  "one_node =
     \<lparr>heap = [1 \<mapsto> \<lparr>n_value = 10, n_next = 0\<rparr>],
      head = 1, length' = 1, cout = [], cerr = [], freed = []\<rparr>"

definition two_nodes :: state where
  "two_nodes =
     \<lparr>heap = [1 \<mapsto> \<lparr>n_value = 10, n_next = 2\<rparr>,
              2 \<mapsto> \<lparr>n_value = 20, n_next = 0\<rparr>],
      head = 1, length' = 2, cout = [], cerr = [], freed = []\<rparr>"

text \<open>The list \<open>[1, 3]\<close>, as \<open>push_back(1); push_back(3)\<close> builds it in an empty heap.\<close>

definition list_1_3 :: state where
  "list_1_3 =
     \<lparr>heap = [1 \<mapsto> \<lparr>n_value = 1, n_next = 2\<rparr>,
              2 \<mapsto> \<lparr>n_value = 3, n_next = 0\<rparr>],
      head = 1, length' = 2, cout = [], cerr = [], freed = []\<rparr>"

text \<open>
  A caller performs a sequence of operations on the list, one after the other. Like
  \<open>main\<close>, which wraps \<open>insert_at\<close> in \<open>try\<close>/\<open>catch\<close>, it catches what an operation
  throws and goes on. \<open>attempt\<close> performs one operation and reports whether it was a
  successful insertion (the call returned) or a successful deletion (the call returned
  \<open>true\<close>); \<open>run\<close> performs the sequence and adds up the two counts.
\<close>

datatype operation =
  Push_front cint | Push_back cint | Insert_at size_t cint
  | Delete_at size_t | Delete_value cint | Print

definition count_insert :: "unit outcome option \<Rightarrow> (nat \<times> nat) outcome option" where
  "count_insert r =
     (case r of
        None \<Rightarrow> None
      | Some (Return x s') \<Rightarrow> Some (Return (1, 0) s')
      | Some (Throw e s') \<Rightarrow> Some (Return (0, 0) s')
      | Some Fault \<Rightarrow> Some Fault)"

definition count_delete :: "bool outcome option \<Rightarrow> (nat \<times> nat) outcome option" where
  "count_delete r =
     (case r of
        None \<Rightarrow> None
      | Some (Return ok s') \<Rightarrow> Some (Return (0, if ok then 1 else 0) s')
      | Some (Throw e s') \<Rightarrow> Some (Return (0, 0) s')
      | Some Fault \<Rightarrow> Some Fault)"

fun attempt :: "operation \<Rightarrow> state \<Rightarrow> (nat \<times> nat) outcome option" where
  "attempt (Push_front v) s = count_insert (Some (push_front v s))"
| "attempt (Push_back v) s = count_insert (push_back v s)"
| "attempt (Insert_at index v) s = count_insert (insert_at index v s)"
| "attempt (Delete_at index) s = count_delete (Some (delete_at index s))"
| "attempt (Delete_value v) s = count_delete (delete_value v s)"
| "attempt Print s =
     (case print s of
        None \<Rightarrow> None
      | Some (Return x s') \<Rightarrow> Some (Return (0, 0) s')
      | Some (Throw e s') \<Rightarrow> Some (Return (0, 0) s')
      | Some Fault \<Rightarrow> Some Fault)"

fun run :: "operation list \<Rightarrow> state \<Rightarrow> (nat \<times> nat) outcome option" where
  "run [] s = Some (Return (0, 0) s)"
| "run (x # xs) s =
     bind_opt (attempt x s) (\<lambda>(i, d) s'.
     bind_opt (run xs s') (\<lambda>(i', d') s''.
     Some (Return (i + i', d + d') s'')))"

text \<open>
  For comparison only, and no function of the program: the teardown in which releasing
  a node first releases its successor, by a call from within the call, and then the
  node itself. On the same stack its depth grows with the length of the chain
  (\<open>recursive_teardown_peak\<close> below), where the destructor's does not.
\<close>

partial_function (option) recursive_teardown ::
  "addr \<Rightarrow> state \<Rightarrow> stack \<Rightarrow> (unit outcome \<times> stack) option" where
  "recursive_teardown p s k =
     (if p \<noteq> 0 then
        (case load p s of
           None \<Rightarrow> Some (Fault, k)
         | Some n \<Rightarrow>
             Option.bind (recursive_teardown (n_next n) s (enter k)) (\<lambda>(r, k1).
               case r of
                 Return _ s1 \<Rightarrow> Some (delete_Node p s1, leave k1)
               | Throw e s1 \<Rightarrow> Some (Throw e s1, leave k1)
               | Fault \<Rightarrow> Some (Fault, k1)))
      else Some (Return () s, k))"

declare recursive_teardown.simps [code]

section \<open>Chains in the heap\<close>

lemma cells_from_iff:
  "cells_from h p k = Some cs \<longleftrightarrow> path h p cs 0 \<and> length cs = k"
proof (induction k arbitrary: p cs)
  case 0
  then show ?case by (cases cs) auto
next
  case (Suc k)
  show ?case
  proof (cases cs)
    case Nil
    then show ?thesis by (auto split: option.splits)
  next
    case (Cons c cs')
    obtain a v where c: "c = (a, v)" by (cases c)
    show ?thesis
    proof (cases "p = 0")
      case True
      then show ?thesis unfolding Cons c by simp
    next
      case False
      show ?thesis
      proof (cases "h p")
        case None
        with False show ?thesis unfolding Cons c by auto
      next
        case (Some n)
        have "(cells_from h p (Suc k) = Some ((a, v) # cs')) =
              (p = a \<and> n_value n = v \<and> cells_from h (n_next n) k = Some cs')"
          using False Some by (cases "cells_from h (n_next n) k") auto
        also have "\<dots> = (path h p ((a, v) # cs') 0 \<and> length ((a, v) # cs') = Suc k)"
          using False Some Suc.IH [of "n_next n" cs'] by auto
        finally show ?thesis unfolding Cons c .
      qed
    qed
  qed
qed

lemma path_null [simp]: "path h 0 cs q \<longleftrightarrow> cs = [] \<and> q = 0"
  by (cases cs) auto

lemma path_append:
  "path h p (xs @ ys) q \<longleftrightarrow> (\<exists>r. path h p xs r \<and> path h r ys q)"
  by (induction xs arbitrary: p) (auto split: option.splits)

lemma path_frame:
  "a \<notin> fst ` set cs \<Longrightarrow> path (h(a := x)) p cs q = path h p cs q"
  by (induction cs arbitrary: p) (auto split: option.splits)

lemma path_allocated:
  "path h p cs q \<Longrightarrow> a \<in> fst ` set cs \<Longrightarrow> a \<noteq> 0 \<and> h a \<noteq> None"
proof (induction cs arbitrary: p)
  case Nil
  then show ?case by simp
next
  case (Cons c cs)
  obtain b v where c: "c = (b, v)" by (cases c)
  from Cons.prems(1) obtain n where n: "b \<noteq> 0" "h b = Some n" "path h (n_next n) cs q"
    unfolding c by (auto split: option.splits)
  show ?case
  proof (cases "a = b")
    case True
    with n show ?thesis by simp
  next
    case False
    with Cons.prems(2) have "a \<in> fst ` set cs" unfolding c by auto
    with Cons.IH [OF n(3)] show ?thesis by simp
  qed
qed

lemma chain_unique:
  "path h p cs 0 \<Longrightarrow> path h p cs' 0 \<Longrightarrow> cs = cs'"
proof (induction cs arbitrary: p cs')
  case Nil
  then show ?case by simp
next
  case (Cons c cs)
  obtain a v where c: "c = (a, v)" by (cases c)
  from Cons.prems obtain c' ds where cs': "cs' = c' # ds"
    unfolding c by (cases cs') auto
  obtain a' v' where c': "c' = (a', v')" by (cases c')
  from Cons.prems Cons.IH [of _ ds] show ?case
    unfolding c cs' c' by (auto split: option.splits)
qed

lemma chain_distinct:
  "path h p cs 0 \<Longrightarrow> distinct (map fst cs)"
proof (induction cs arbitrary: p)
  case Nil
  then show ?case by simp
next
  case (Cons c cs)
  obtain a v where c: "c = (a, v)" by (cases c)
  from Cons.prems obtain n where n: "h a = Some n" and rest: "path h (n_next n) cs 0"
    unfolding c by (auto split: option.splits)
  have "a \<notin> fst ` set cs"
  proof
    assume "a \<in> fst ` set cs"
    then obtain w where "(a, w) \<in> set cs" by auto
    then obtain xs ys where split: "cs = xs @ (a, w) # ys"
      by (auto simp: in_set_conv_decomp)
    with rest obtain r where "path h r ((a, w) # ys) 0"
      by (auto simp: path_append)
    with n have "path h (n_next n) ys 0" by simp
    then have "ys = cs" using rest by (rule chain_unique)
    with split show False by simp
  qed
  with Cons.IH [OF rest] show ?case unfolding c by simp
qed


lemma chain_head_notin_tail:
  "path h p ((a, v) # cs) 0 \<Longrightarrow> a \<notin> fst ` set cs"
  using chain_distinct [of h p "(a, v) # cs"] by simp

lemma addr_list_bound:
  fixes xs :: "addr list"
  assumes "distinct xs" and "0 \<notin> set xs"
  shows "length xs < 2 ^ 64"
proof -
  have "length (0 # xs) = card (set (0 # xs))"
    using assms by (simp add: distinct_card)
  also have "\<dots> \<le> card (UNIV :: addr set)"
    by (rule card_mono) simp_all
  also have "\<dots> = 2 ^ 64"
    by (simp add: card_word)
  finally show ?thesis by simp
qed

lemma chain_length_bound:
  assumes "path h p cs 0"
  shows "length cs < 2 ^ 64"
proof -
  have "distinct (map fst cs)"
    using assms by (rule chain_distinct)
  moreover have "0 \<notin> set (map fst cs)"
    using path_allocated [OF assms, of 0] by auto
  ultimately show ?thesis
    using addr_list_bound [of "map fst cs"] by simp
qed

lemma unat_succ:
  fixes w :: size_t
  assumes "unat w < 2 ^ 64 - 1"
  shows "unat (w + 1) = Suc (unat w)"
proof -
  have "unat w + unat (1 :: size_t) < 2 ^ LENGTH(64)"
    using assms by simp
  then have "unat (w + 1) = unat w + unat (1 :: size_t)"
    by (simp only: unat_add_lem)
  then show ?thesis by simp
qed

lemma unat_pred:
  fixes w :: size_t
  assumes "w \<noteq> 0"
  shows "unat (w - 1) = unat w - 1"
  using assms by (simp add: unat_minus_one)

lemma find_free_sound:
  "find_free h a = Some b \<Longrightarrow> b \<noteq> 0 \<and> h b = None"
proof (induction h a rule: find_free.induct)
  case (1 h a)
  show ?case
  proof (cases "a = 0")
    case True
    with "1.prems" show ?thesis by simp
  next
    case False
    show ?thesis
    proof (cases "h a = None")
      case True
      with False "1.prems" show ?thesis by simp
    next
      case nonfree: False
      with False "1.prems" have "find_free h (a + 1) = Some b" by simp
      with "1.IH" [OF False nonfree] show ?thesis .
    qed
  qed
qed

lemma new_Node_cases:
  obtains (bad_alloc) "new_Node v s = Throw bad_alloc s"
  | (fresh) a where "a \<noteq> 0" and "heap s a = None"
      and "new_Node v s = Return a (s\<lparr>heap := (heap s)(a \<mapsto> \<lparr>n_value = v, n_next = 0\<rparr>)\<rparr>)"
proof (cases "find_free (heap s) 1")
  case None
  then have "new_Node v s = Throw bad_alloc s"
    by (simp add: new_Node_def)
  then show ?thesis by (rule bad_alloc)
next
  case (Some a)
  then have "a \<noteq> 0" and "heap s a = None"
    using find_free_sound [of "heap s" 1 a] by simp_all
  moreover have "new_Node v s = Return a (s\<lparr>heap := (heap s)(a \<mapsto> \<lparr>n_value = v, n_next = 0\<rparr>)\<rparr>)"
    using Some by (simp add: new_Node_def)
  ultimately show ?thesis by (rule fresh)
qed

text \<open>\<open>operator new\<close> throws only when no address is free.\<close>

lemma find_free_None:
  "find_free h a = None \<Longrightarrow> a \<noteq> 0 \<Longrightarrow> a \<le> b \<Longrightarrow> h b \<noteq> None"
proof (induction h a rule: find_free.induct)
  case (1 h a)
  have used: "h a \<noteq> None"
    using "1.prems"(1,2) by (auto split: if_splits)
  show ?case
  proof (cases "b = a")
    case True
    with used show ?thesis by simp
  next
    case False
    with "1.prems"(3) have lt: "a < b" by simp
    then have le: "a + 1 \<le> b"
      by (rule inc_le)
    have "unat a < unat b"
      using lt by (simp add: word_less_nat_alt)
    moreover have "unat b < 2 ^ 64"
      using unsigned_less [of b] by simp
    ultimately have "unat a < 2 ^ 64 - 1"
      by simp
    then have "unat (a + 1) = Suc (unat a)"
      by (rule unat_succ)
    then have nz: "a + 1 \<noteq> 0"
      by auto
    have "find_free h (a + 1) = None"
      using "1.prems"(1,2) used by simp
    from "1.IH" [OF "1.prems"(2) used this nz le] show ?thesis .
  qed
qed

lemma new_Node_returns:
  assumes "b \<noteq> 0" and "heap s b = None"
  obtains a where "a \<noteq> 0" and "heap s a = None"
    and "new_Node v s = Return a (s\<lparr>heap := (heap s)(a \<mapsto> \<lparr>n_value = v, n_next = 0\<rparr>)\<rparr>)"
proof (cases v s rule: new_Node_cases)
  case bad_alloc
  have "find_free (heap s) 1 = None"
  proof (cases "find_free (heap s) 1")
    case None
    then show ?thesis .
  next
    case (Some a)
    with bad_alloc show ?thesis
      by (simp add: new_Node_def del: find_free.simps)
  qed
  moreover have "0 < b"
    using assms(1) by (rule word_neq_0_conv [THEN iffD1])
  then have "1 \<le> b"
    using inc_le [of 0 b] by simp
  ultimately have "heap s b \<noteq> None"
    by (intro find_free_None [of "heap s" 1 b]) simp_all
  with assms(2) show ?thesis by simp
next
  case (fresh a)
  then show ?thesis by (rule that)
qed

lemma fresh_notin_chain:
  "path h p cs q \<Longrightarrow> h a = None \<Longrightarrow> a \<notin> fst ` set cs"
  using path_allocated [of h p cs q a] by auto

text \<open>Linking a new node \<open>a\<close> after the node \<open>b\<close>.\<close>

lemma chain_link:
  assumes ch: "path h p (xs @ (b, w) # ys) 0"
    and b: "h b = Some bn"
    and a: "h a = None"  "a \<noteq> 0"
  shows "path (h(a \<mapsto> \<lparr>n_value = v, n_next = n_next bn\<rparr>, b \<mapsto> bn\<lparr>n_next := a\<rparr>)) p
           (xs @ (b, w) # (a, v) # ys) 0"
proof -
  let ?h = "h(a \<mapsto> \<lparr>n_value = v, n_next = n_next bn\<rparr>, b \<mapsto> bn\<lparr>n_next := a\<rparr>)"
  from ch obtain r where pre: "path h p xs r" and suf: "path h r ((b, w) # ys) 0"
    by (auto simp: path_append)
  from suf b have r: "r = b" and b0: "b \<noteq> 0" and w: "n_value bn = w"
    and tl: "path h (n_next bn) ys 0"
    by auto
  have dist: "distinct (map fst (xs @ (b, w) # ys))"
    using ch by (rule chain_distinct)
  have an: "a \<notin> fst ` set (xs @ (b, w) # ys)"
    using ch a(1) by (rule fresh_notin_chain)
  have ab: "a \<noteq> b" using a(1) b by auto
  have axs: "a \<notin> fst ` set xs" and ays: "a \<notin> fst ` set ys"
    using an by auto
  have bxs: "b \<notin> fst ` set xs" and bys: "b \<notin> fst ` set ys"
    using dist by auto
  have "path ?h p xs b"
    using pre r axs bxs by (simp add: path_frame)
  moreover have "path ?h (n_next bn) ys 0"
    using tl ays bys by (simp add: path_frame)
  then have "path ?h b ((b, w) # (a, v) # ys) 0"
    using b0 w a(2) ab by simp
  ultimately show ?thesis
    by (auto simp: path_append)
qed

text \<open>Unlinking and releasing the node \<open>c\<close> that follows the node \<open>b\<close>.\<close>

lemma chain_unlink:
  assumes ch: "path h p (xs @ (b, w) # (c, u) # ys) 0"
    and b: "h b = Some bn"
    and c: "h c = Some cn"
  shows "path ((h(b \<mapsto> bn\<lparr>n_next := n_next cn\<rparr>))(c := None)) p (xs @ (b, w) # ys) 0"
proof -
  let ?h = "(h(b \<mapsto> bn\<lparr>n_next := n_next cn\<rparr>))(c := None)"
  from ch obtain r where pre: "path h p xs r" and suf: "path h r ((b, w) # (c, u) # ys) 0"
    by (auto simp: path_append)
  from suf b c have r: "r = b" and b0: "b \<noteq> 0" and w: "n_value bn = w"
    and tl: "path h (n_next cn) ys 0"
    by auto
  have dist: "distinct (map fst (xs @ (b, w) # (c, u) # ys))"
    using ch by (rule chain_distinct)
  have bc: "b \<noteq> c" using dist by auto
  have bxs: "b \<notin> fst ` set xs" and bys: "b \<notin> fst ` set ys"
    using dist by auto
  have cxs: "c \<notin> fst ` set xs" and cys: "c \<notin> fst ` set ys"
    using dist by auto
  have "path ?h p xs b"
    using pre r bxs cxs by (simp add: path_frame)
  moreover have "path ?h (n_next cn) ys 0"
    using tl bys cys by (simp add: path_frame)
  then have "path ?h b ((b, w) # ys) 0"
    using b0 w bc by simp
  ultimately show ?thesis
    by (auto simp: path_append)
qed

text \<open>Releasing the first node.\<close>

lemma chain_drop_head:
  assumes ch: "path h p ((a, v) # cs) 0" and a: "h a = Some n"
  shows "path (h(a := None)) (n_next n) cs 0"
proof -
  have "a \<notin> fst ` set cs"
    using ch by (rule chain_head_notin_tail)
  moreover have "path h (n_next n) cs 0"
    using ch a by simp
  ultimately show ?thesis
    by (simp add: path_frame)
qed


lemma cells_iff:
  "cells s = Some cs \<longleftrightarrow> path (heap s) (head s) cs 0 \<and> length cs = unat (length' s)"
  by (simp add: cells_def cells_from_iff)

lemma bind_Return [simp]: "bind (Return x s) f = f x s"
  by (simp add: bind_def)

lemma bind_Throw [simp]: "bind (Throw e s) f = Throw e s"
  by (simp add: bind_def)

lemma bind_Fault [simp]: "bind Fault f = Fault"
  by (simp add: bind_def)

lemma bind_opt_Return [simp]: "bind_opt (Some (Return x s)) f = f x s"
  by (simp add: bind_opt_def)

lemma bind_opt_Throw [simp]: "bind_opt (Some (Throw e s)) f = Some (Throw e s)"
  by (simp add: bind_opt_def)

lemma bind_opt_Fault [simp]: "bind_opt (Some Fault) f = Some Fault"
  by (simp add: bind_opt_def)

lemma bind_opt_None [simp]: "bind_opt None f = None"
  by (simp add: bind_opt_def)

lemma get_node_loop_chain:
  assumes "path (heap s) cur cs 0" and "unat index - unat i < length cs"
  shows "get_node_loop index i cur s = Return (fst (cs ! (unat index - unat i))) s"
  using assms
proof (induction index i cur s arbitrary: cs rule: get_node_loop.induct)
  case (1 index i cur s)
  from "1.prems" obtain a v cs' where cs: "cs = (a, v) # cs'"
    by (cases cs) auto
  from "1.prems"(1) obtain n where cur: "cur = a" "a \<noteq> 0" and n: "heap s a = Some n"
    and tl: "path (heap s) (n_next n) cs' 0"
    unfolding cs by (auto split: option.splits)
  show ?case
  proof (cases "i < index")
    case True
    then have lt: "unat i < unat index"
      by (simp add: word_less_nat_alt)
    have "unat index < 2 ^ 64"
      using unsigned_less [of index] by simp
    with lt have "unat i < 2 ^ 64 - 1"
      by simp
    then have suc: "unat (i + 1) = Suc (unat i)"
      by (rule unat_succ)
    have ld: "load cur s = Some n"
      using cur n by (simp add: load_def)
    have "unat index - unat (i + 1) < length cs'"
      using "1.prems"(2) lt suc unfolding cs by simp
    with "1.IH" [OF True ld tl]
    have "get_node_loop index (i + 1) (n_next n) s =
            Return (fst (cs' ! (unat index - unat (i + 1)))) s" .
    moreover have "cs ! (unat index - unat i) = cs' ! (unat index - unat (i + 1))"
      using lt suc unfolding cs by (simp add: nth_Cons')
    ultimately show ?thesis
      using True ld by simp
  next
    case False
    then have "unat index - unat i = 0"
      by (simp add: word_less_nat_alt)
    with False cur show ?thesis
      unfolding cs by simp
  qed
qed

lemma get_node_chain:
  assumes "cells s = Some cs" and "index < length' s"
  shows "get_node index s = Return (fst (cs ! unat index)) s"
proof -
  from assms(1) have ch: "path (heap s) (head s) cs 0" and len: "length cs = unat (length' s)"
    by (simp_all add: cells_iff)
  have "unat index < length cs"
    using assms(2) len by (simp add: word_less_nat_alt)
  then have "get_node_loop index 0 (head s) s = Return (fst (cs ! (unat index - unat (0 :: size_t)))) s"
    using ch by (intro get_node_loop_chain) simp_all
  then show ?thesis
    using assms(2) by (simp add: get_node_def not_le [symmetric])
qed

lemma push_front_spec:
  assumes "cells s = Some cs"
  obtains (bad_alloc) "push_front v s = Throw bad_alloc s" and "new_Node v s = Throw bad_alloc s"
  | (ok) a where "a \<noteq> 0" and "heap s a = None"
      and "push_front v s = Return ()
             (s\<lparr>heap := (heap s)(a \<mapsto> \<lparr>n_value = v, n_next = head s\<rparr>),
                head := a, length' := length' s + 1\<rparr>)"
      and "cells (s\<lparr>heap := (heap s)(a \<mapsto> \<lparr>n_value = v, n_next = head s\<rparr>),
                head := a, length' := length' s + 1\<rparr>) = Some ((a, v) # cs)"
      and "new_Node v s = Return a (s\<lparr>heap := (heap s)(a \<mapsto> \<lparr>n_value = v, n_next = 0\<rparr>)\<rparr>)"
proof (cases v s rule: new_Node_cases)
  case bad_alloc
  then have "push_front v s = Throw bad_alloc s"
    by (simp add: push_front_def)
  then show ?thesis using bad_alloc by (rule that(1))
next
  case (fresh a)
  let ?h = "(heap s)(a \<mapsto> \<lparr>n_value = v, n_next = head s\<rparr>)"
  let ?s = "s\<lparr>heap := ?h, head := a, length' := length' s + 1\<rparr>"
  from assms have ch: "path (heap s) (head s) cs 0" and len: "length cs = unat (length' s)"
    by (simp_all add: cells_iff)
  have run: "push_front v s = Return () ?s"
    using fresh by (simp add: push_front_def store_next_def load_def)
  have "a \<notin> fst ` set cs"
    using ch fresh(2) by (rule fresh_notin_chain)
  then have ch': "path ?h a ((a, v) # cs) 0"
    using ch fresh(1) by (simp add: path_frame)
  then have "length ((a, v) # cs) < 2 ^ 64"
    by (rule chain_length_bound)
  then have "unat (length' s + 1) = Suc (unat (length' s))"
    using len by (intro unat_succ) simp
  with ch' len have "cells ?s = Some ((a, v) # cs)"
    by (simp add: cells_iff)
  with fresh(1,2) run show ?thesis using fresh(3) by (rule that(2))
qed

lemma push_back_loop_chain:
  assumes "path (heap s) p cs 0" and "cs \<noteq> []"
  shows "push_back_loop p s = Some (Return (fst (last cs)) s)"
  using assms
proof (induction cs arbitrary: p)
  case Nil
  then show ?case by simp
next
  case (Cons c cs)
  obtain a v where c: "c = (a, v)" by (cases c)
  from Cons.prems(1) obtain n where p: "p = a" "a \<noteq> 0" and n: "heap s a = Some n"
    and tl: "path (heap s) (n_next n) cs 0"
    unfolding c by (auto split: option.splits)
  have ld: "load p s = Some n"
    using p n by (simp add: load_def)
  show ?case
  proof (cases "cs = []")
    case True
    with tl have "n_next n = 0" by simp
    with ld True show ?thesis
      unfolding c by (subst push_back_loop.simps) (simp add: p)
  next
    case False
    with tl have "n_next n \<noteq> 0" by (cases cs) auto
    moreover have "push_back_loop (n_next n) s = Some (Return (fst (last cs)) s)"
      using tl False by (rule Cons.IH)
    ultimately show ?thesis
      using ld False by (subst push_back_loop.simps) simp
  qed
qed


lemma path_mid:
  assumes "path h p (xs @ (b, w) # ys) q"
  obtains bn where "h b = Some bn" and "b \<noteq> 0" and "n_value bn = w"
    and "path h p xs b" and "path h (n_next bn) ys q"
  using assms by (auto simp: path_append split: option.splits)

lemma push_back_spec:
  assumes "cells s = Some cs"
  obtains (bad_alloc) "push_back v s = Some (Throw bad_alloc s)" and "new_Node v s = Throw bad_alloc s"
  | (ok) a s' where "a \<noteq> 0" and "heap s a = None"
      and "push_back v s = Some (Return () s')"
      and "cells s' = Some (cs @ [(a, v)])"
      and "length' s' = length' s + 1"
      and "cout s' = cout s" and "cerr s' = cerr s" and "freed s' = freed s"
      and "\<forall>b. b \<noteq> a \<and> b \<notin> fst ` set cs \<longrightarrow> heap s' b = heap s b"
      and "new_Node v s = Return a (s\<lparr>heap := (heap s)(a \<mapsto> \<lparr>n_value = v, n_next = 0\<rparr>)\<rparr>)"
proof (cases v s rule: new_Node_cases)
  case bad_alloc
  then have "push_back v s = Some (Throw bad_alloc s)"
    by (simp add: push_back_def)
  then show ?thesis using bad_alloc by (rule that(1))
next
  case (fresh a)
  let ?h1 = "(heap s)(a \<mapsto> \<lparr>n_value = v, n_next = 0\<rparr>)"
  let ?s1 = "s\<lparr>heap := ?h1\<rparr>"
  from assms have ch: "path (heap s) (head s) cs 0" and len: "length cs = unat (length' s)"
    by (simp_all add: cells_iff)
  have an: "a \<notin> fst ` set cs"
    using ch fresh(2) by (rule fresh_notin_chain)
  show ?thesis
  proof (cases "cs = []")
    case True
    with ch have hd0: "head s = 0" by simp
    let ?s = "s\<lparr>heap := ?h1, head := a, length' := length' s + 1\<rparr>"
    have run: "push_back v s = Some (Return () ?s)"
      using fresh hd0 by (simp add: push_back_def)
    have ch': "path ?h1 a ((a, v) # cs) 0"
      using True fresh(1) by simp
    then have "length ((a, v) # cs) < 2 ^ 64"
      by (rule chain_length_bound)
    then have "unat (length' s + 1) = Suc (unat (length' s))"
      using len by (intro unat_succ) simp
    with ch' len True have "cells ?s = Some (cs @ [(a, v)])"
      by (simp add: cells_iff)
    with fresh(1,2) run show ?thesis
      by (rule that(2)) (simp_all add: fresh(3))
  next
    case False
    then obtain xs b w where cs: "cs = xs @ [(b, w)]"
      by (cases cs rule: rev_cases) auto
    from ch obtain bn where bn: "heap s b = Some bn" and b0: "b \<noteq> 0"
      and bnext: "path (heap s) (n_next bn) [] 0"
      unfolding cs by (rule path_mid)
    from bnext have bnext0: "n_next bn = 0" by simp
    have hd: "head s \<noteq> 0"
      using ch False by (cases cs) auto
    have ab: "a \<noteq> b"
      using fresh(2) bn by auto
    have "path ?h1 (head s) cs 0"
      using ch an by (simp add: path_frame)
    then have "push_back_loop (head ?s1) ?s1 = Some (Return (fst (last cs)) ?s1)"
      using False by (intro push_back_loop_chain) simp_all
    then have loop: "push_back_loop (head s) ?s1 = Some (Return b ?s1)"
      unfolding cs by simp
    let ?h2 = "(heap s)(a \<mapsto> \<lparr>n_value = v, n_next = n_next bn\<rparr>, b \<mapsto> bn\<lparr>n_next := a\<rparr>)"
    let ?s = "s\<lparr>heap := ?h2, length' := length' s + 1\<rparr>"
    have run: "push_back v s = Some (Return () ?s)"
      using fresh hd loop bn b0 ab bnext0
      by (simp add: push_back_def store_next_def load_def)
    have ch': "path ?h2 (head s) (xs @ (b, w) # (a, v) # []) 0"
      using ch bn fresh(2,1) unfolding cs by (rule chain_link)
    then have "length (xs @ (b, w) # (a, v) # []) < 2 ^ 64"
      by (rule chain_length_bound)
    then have "unat (length' s + 1) = Suc (unat (length' s))"
      using len unfolding cs by (intro unat_succ) simp
    with ch' len have "cells ?s = Some (cs @ [(a, v)])"
      unfolding cs by (simp add: cells_iff)
    with fresh(1,2) run show ?thesis
      by (rule that(2)) (simp_all add: cs fresh(3))
  qed
qed


lemma insert_at_spec:
  assumes cells: "cells s = Some cs" and range: "index \<le> length' s"
  obtains (bad_alloc) "insert_at index v s = Some (Throw bad_alloc s)"
      and "new_Node v s = Throw bad_alloc s"
  | (ok) a s' where "a \<noteq> 0" and "heap s a = None"
      and "insert_at index v s = Some (Return () s')"
      and "cells s' = Some (take (unat index) cs @ (a, v) # drop (unat index) cs)"
      and "length' s' = length' s + 1"
      and "cout s' = cout s" and "cerr s' = cerr s" and "freed s' = freed s"
      and "\<forall>b. b \<noteq> a \<and> b \<notin> fst ` set cs \<longrightarrow> heap s' b = heap s b"
      and "new_Node v s = Return a (s\<lparr>heap := (heap s)(a \<mapsto> \<lparr>n_value = v, n_next = 0\<rparr>)\<rparr>)"
proof -
  from cells have ch: "path (heap s) (head s) cs 0" and len: "length cs = unat (length' s)"
    by (simp_all add: cells_iff)
  have ngt: "\<not> length' s < index"
    using range by simp
  consider (front) "index = 0" | (rear) "index \<noteq> 0" "index = length' s"
    | (mid) "index \<noteq> 0" "index \<noteq> length' s"
    by blast
  then show ?thesis
  proof cases
    case front
    then have eq: "insert_at index v s = Some (push_front v s)"
      by (simp add: insert_at_def)
    from cells show ?thesis
    proof (cases rule: push_front_spec [where v = v])
      case bad_alloc
      with eq show ?thesis by (intro that(1)) simp_all
    next
      case (ok a)
      let ?s = "s\<lparr>heap := (heap s)(a \<mapsto> \<lparr>n_value = v, n_next = head s\<rparr>),
                  head := a, length' := length' s + 1\<rparr>"
      have run: "insert_at index v s = Some (Return () ?s)"
        using eq ok(3) by simp
      have "cells ?s = Some (take (unat index) cs @ (a, v) # drop (unat index) cs)"
        using ok(4) front by simp
      with ok(1,2) run show ?thesis
        by (rule that(2)) (simp_all add: ok(5))
    qed
  next
    case rear
    then have eq: "insert_at index v s = push_back v s"
      by (simp add: insert_at_def)
    from cells show ?thesis
    proof (cases rule: push_back_spec [where v = v])
      case bad_alloc
      with eq show ?thesis by (intro that(1)) simp_all
    next
      case (ok a s')
      have run: "insert_at index v s = Some (Return () s')"
        using eq ok(3) by simp
      have "cells s' = Some (take (unat index) cs @ (a, v) # drop (unat index) cs)"
        using ok(4) rear len by simp
      with ok(1,2) run show ?thesis
        using ok(5-10) by (rule that(2))
    qed
  next
    case mid
    define k where "k = unat index - 1"
    have ipos: "0 < unat index"
      using mid(1) by (simp add: unat_gt_0)
    have ilt: "unat index < length cs"
      using mid(2) range len by (simp add: word_le_nat_alt word_unat_eq_iff)
    have pred: "unat (index - 1) = k"
      using mid(1) by (simp add: k_def unat_pred)
    have klt: "k < length cs" and sk: "Suc k = unat index"
      using ipos ilt by (simp_all add: k_def)
    have "index - 1 < length' s"
      using pred klt len by (simp add: word_less_nat_alt)
    with cells have gn: "get_node (index - 1) s = Return (fst (cs ! k)) s"
      using pred get_node_chain [of s cs "index - 1"] by simp
    obtain b w where bw: "cs ! k = (b, w)" by (cases "cs ! k")
    define xs ys where "xs = take k cs" and "ys = drop (Suc k) cs"
    have cs: "cs = xs @ (b, w) # ys"
      unfolding xs_def ys_def bw [symmetric] using klt by (rule id_take_nth_drop)
    have tk: "take (unat index) cs = xs @ [(b, w)]"
      using klt bw sk [symmetric] by (simp add: xs_def take_Suc_conv_app_nth)
    have dr: "drop (unat index) cs = ys"
      using sk by (simp add: ys_def)
    from ch obtain bn where bn: "heap s b = Some bn" and b0: "b \<noteq> 0"
      unfolding cs by (rule path_mid)
    show ?thesis
    proof (cases v s rule: new_Node_cases)
      case bad_alloc
      then have "insert_at index v s = Some (Throw bad_alloc s)"
        using mid ngt gn by (simp add: insert_at_def)
      then show ?thesis using bad_alloc by (rule that(1))
    next
      case (fresh a)
      have ab: "a \<noteq> b"
        using fresh(2) bn by auto
      let ?h = "(heap s)(a \<mapsto> \<lparr>n_value = v, n_next = n_next bn\<rparr>, b \<mapsto> bn\<lparr>n_next := a\<rparr>)"
      let ?s = "s\<lparr>heap := ?h, length' := length' s + 1\<rparr>"
      have run: "insert_at index v s = Some (Return () ?s)"
        using mid ngt gn bw fresh bn b0 ab
        by (simp add: insert_at_def store_next_def load_def)
      have ch': "path ?h (head s) (xs @ (b, w) # (a, v) # ys) 0"
        using ch bn fresh(2,1) unfolding cs by (rule chain_link)
      then have "length (xs @ (b, w) # (a, v) # ys) < 2 ^ 64"
        by (rule chain_length_bound)
      then have "unat (length' s + 1) = Suc (unat (length' s))"
        using len unfolding cs by (intro unat_succ) simp
      with ch' len have "cells ?s = Some (take (unat index) cs @ (a, v) # drop (unat index) cs)"
        unfolding tk dr by (simp add: cells_iff cs)
      with fresh(1,2) run show ?thesis
        by (rule that(2)) (simp_all add: cs fresh(3))
    qed
  qed
qed


lemma delete_at_fail:
  assumes "index \<ge> length' s"
  shows "delete_at index s =
           Return False (put_cerr
             (if length' s = 0 then ''Error: delete_at on empty list'' @ [CHR 0x0A]
              else ''Error: index out of range'' @ [CHR 0x0A]) s)"
  using assms by (simp add: delete_at_def empty_def)

lemma delete_at_spec:
  assumes cells: "cells s = Some cs" and range: "index < length' s"
  obtains s' where "delete_at index s = Return True s'"
    and "cells s' = Some (take (unat index) cs @ drop (Suc (unat index)) cs)"
    and "length' s' = length' s - 1"
    and "cout s' = cout s" and "cerr s' = cerr s"
    and "freed s' = freed s @ [fst (cs ! unat index)]"
    and "heap s' (fst (cs ! unat index)) = None"
    and "\<forall>b. b \<notin> fst ` set cs \<longrightarrow> heap s' b = heap s b"
proof -
  from cells have ch: "path (heap s) (head s) cs 0" and len: "length cs = unat (length' s)"
    by (simp_all add: cells_iff)
  have ilt: "unat index < length cs"
    using range len by (simp add: word_less_nat_alt)
  have nz: "length' s \<noteq> 0"
    using range by auto
  have nge: "\<not> length' s \<le> index"
    using range by simp
  have dec: "unat (length' s - 1) = length cs - 1"
    using nz len by (simp add: unat_pred)
  show ?thesis
  proof (cases "index = 0")
    case True
    from ilt obtain a v cs' where cs: "cs = (a, v) # cs'"
      by (cases cs) auto
    from ch obtain hn where hd: "head s = a" "a \<noteq> 0" and hn: "heap s a = Some hn"
      unfolding cs by (auto split: option.splits)
    let ?s = "s\<lparr>head := n_next hn, heap := (heap s)(a := None),
               freed := freed s @ [a], length' := length' s - 1\<rparr>"
    have run: "delete_at index s = Return True ?s"
      using True nz hd hn by (simp add: delete_at_def empty_def load_def delete_Node_def)
    have "path ((heap s)(a := None)) (n_next hn) cs' 0"
      using ch hn unfolding cs hd(1) by (rule chain_drop_head)
    then have "cells ?s = Some (take (unat index) cs @ drop (Suc (unat index)) cs)"
      using dec True by (simp add: cells_iff cs)
    with run show ?thesis
      by (rule that) (simp_all add: cs True)
  next
    case False
    define k where "k = unat index - 1"
    have ipos: "0 < unat index"
      using False by (simp add: unat_gt_0)
    have pred: "unat (index - 1) = k"
      using False by (simp add: k_def unat_pred)
    have klt: "k < length cs" and sk: "Suc k = unat index" and sklt: "Suc k < length cs"
      using ipos ilt by (simp_all add: k_def)
    have "index - 1 < length' s"
      using pred klt len by (simp add: word_less_nat_alt)
    with cells have gn: "get_node (index - 1) s = Return (fst (cs ! k)) s"
      using pred get_node_chain [of s cs "index - 1"] by simp
    obtain b w where bw: "cs ! k = (b, w)" by (cases "cs ! k")
    obtain c u where cu: "cs ! Suc k = (c, u)" by (cases "cs ! Suc k")
    define xs ys where "xs = take k cs" and "ys = drop (Suc (Suc k)) cs"
    have "cs = take k cs @ cs ! k # drop (Suc k) cs"
      using klt by (rule id_take_nth_drop)
    also have "drop (Suc k) cs = cs ! Suc k # drop (Suc (Suc k)) cs"
      using sklt by (rule Cons_nth_drop_Suc [symmetric])
    finally have cs: "cs = xs @ (b, w) # (c, u) # ys"
      by (simp add: xs_def ys_def bw cu)
    have tk: "take (unat index) cs = xs @ [(b, w)]"
      using klt bw sk [symmetric] by (simp add: xs_def take_Suc_conv_app_nth)
    have dr: "drop (Suc (unat index)) cs = ys"
      using sk by (simp add: ys_def)
    have nth: "cs ! unat index = (c, u)"
      using cu sk by simp
    from ch obtain bn where bn: "heap s b = Some bn" and b0: "b \<noteq> 0"
      and tl: "path (heap s) (n_next bn) ((c, u) # ys) 0"
      unfolding cs by (rule path_mid)
    from tl obtain cn where bnext: "n_next bn = c" and c0: "c \<noteq> 0" and cn: "heap s c = Some cn"
      by (auto split: option.splits)
    have bc: "b \<noteq> c"
      using chain_distinct [OF ch] unfolding cs by simp
    let ?h = "((heap s)(b \<mapsto> bn\<lparr>n_next := n_next cn\<rparr>))(c := None)"
    let ?s = "s\<lparr>heap := ?h, freed := freed s @ [c], length' := length' s - 1\<rparr>"
    have run: "delete_at index s = Return True ?s"
      using False nz nge gn bw bn b0 bnext c0 cn bc
      by (simp add: delete_at_def empty_def load_def store_next_def delete_Node_def)
    have "path ?h (head s) (xs @ (b, w) # ys) 0"
      using ch bn cn unfolding cs by (rule chain_unlink)
    then have "cells ?s = Some (take (unat index) cs @ drop (Suc (unat index)) cs)"
      unfolding tk dr using dec by (simp add: cells_iff cs)
    with run show ?thesis
      by (rule that) (simp_all add: nth, simp add: cs)
  qed
qed


lemma delete_value_loop_absent:
  assumes "path (heap s) cur ys 0" and "v \<notin> snd ` set ys"
  shows "delete_value_loop v prev cur s = Some (Return False s)"
  using assms
proof (induction ys arbitrary: prev cur)
  case Nil
  then show ?case
    by (subst delete_value_loop.simps) simp
next
  case (Cons c ys)
  obtain a u where c: "c = (a, u)" by (cases c)
  from Cons.prems(1) obtain n where cur: "cur = a" "a \<noteq> 0" and n: "heap s a = Some n"
    and u: "n_value n = u" and tl: "path (heap s) (n_next n) ys 0"
    unfolding c by (auto split: option.splits)
  have "u \<noteq> v" and "v \<notin> snd ` set ys"
    using Cons.prems(2) unfolding c by auto
  moreover from tl this(2) have "delete_value_loop v a (n_next n) s = Some (Return False s)"
    by (rule Cons.IH)
  ultimately show ?case
    using cur n u by (subst delete_value_loop.simps) (simp add: load_def)
qed

lemma delete_value_loop_found:
  assumes "path (heap s) p (xs @ (b, w) # pre @ (a, v) # post) 0"
    and "v \<notin> snd ` set pre"
    and "heap s b = Some bn"
  shows "\<exists>s'. delete_value_loop v b (n_next bn) s = Some (Return True s')
           \<and> path (heap s') p (xs @ (b, w) # pre @ post) 0
           \<and> head s' = head s \<and> length' s' = length' s - 1
           \<and> cout s' = cout s \<and> cerr s' = cerr s
           \<and> freed s' = freed s @ [a] \<and> heap s' a = None
           \<and> (\<forall>c. c \<notin> fst ` set (xs @ (b, w) # pre @ (a, v) # post) \<longrightarrow> heap s' c = heap s c)"
  using assms
proof (induction pre arbitrary: xs b w bn)
  case Nil
  from Nil.prems(1) have ch: "path (heap s) p (xs @ (b, w) # (a, v) # post) 0"
    by simp
  from ch obtain bn' where "heap s b = Some bn'" and b0: "b \<noteq> 0"
    and tl: "path (heap s) (n_next bn') ((a, v) # post) 0"
    by (rule path_mid)
  with Nil.prems(3) have tl: "path (heap s) (n_next bn) ((a, v) # post) 0"
    by simp
  then obtain an where bnext: "n_next bn = a" and a0: "a \<noteq> 0" and an: "heap s a = Some an"
    and av: "n_value an = v"
    by (auto split: option.splits)
  have ba: "b \<noteq> a"
    using chain_distinct [OF ch] by simp
  let ?h = "((heap s)(b \<mapsto> bn\<lparr>n_next := n_next an\<rparr>))(a := None)"
  let ?s = "s\<lparr>heap := ?h, freed := freed s @ [a], length' := length' s - 1\<rparr>"
  have run: "delete_value_loop v b (n_next bn) s = Some (Return True ?s)"
    using bnext a0 an av Nil.prems(3) b0 ba
    by (subst delete_value_loop.simps) (simp add: load_def store_next_def delete_Node_def)
  have "path ?h p (xs @ (b, w) # post) 0"
    using ch Nil.prems(3) an by (rule chain_unlink)
  then have ch': "path (heap ?s) p (xs @ (b, w) # [] @ post) 0"
    by simp
  have fields: "head ?s = head s" "length' ?s = length' s - 1" "cout ?s = cout s"
    "cerr ?s = cerr s" "freed ?s = freed s @ [a]" "heap ?s a = None"
    by simp_all
  have frame: "\<forall>c. c \<notin> fst ` set (xs @ (b, w) # [] @ (a, v) # post) \<longrightarrow> heap ?s c = heap s c"
    by simp
  from run ch' fields frame show ?case
    by blast
next
  case (Cons c pre)
  obtain d u where c: "c = (d, u)" by (cases c)
  from Cons.prems(1) have ch: "path (heap s) p ((xs @ [(b, w)]) @ (d, u) # pre @ (a, v) # post) 0"
    unfolding c by simp
  from Cons.prems(1) obtain bn' where "heap s b = Some bn'"
    and "path (heap s) (n_next bn') ((d, u) # pre @ (a, v) # post) 0"
    unfolding c by (auto elim: path_mid)
  with Cons.prems(3) have tl: "path (heap s) (n_next bn) ((d, u) # pre @ (a, v) # post) 0"
    by simp
  then obtain dn where bnext: "n_next bn = d" and d0: "d \<noteq> 0" and dn: "heap s d = Some dn"
    and du: "n_value dn = u"
    by (auto split: option.splits)
  have uv: "u \<noteq> v" and pre: "v \<notin> snd ` set pre"
    using Cons.prems(2) unfolding c by auto
  from Cons.IH [OF ch pre dn] obtain s' where
    loop: "delete_value_loop v d (n_next dn) s = Some (Return True s')"
    and rest: "path (heap s') p ((xs @ [(b, w)]) @ (d, u) # pre @ post) 0"
      "head s' = head s" "length' s' = length' s - 1"
      "cout s' = cout s" "cerr s' = cerr s"
      "freed s' = freed s @ [a]" "heap s' a = None"
      "\<forall>c. c \<notin> fst ` set ((xs @ [(b, w)]) @ (d, u) # pre @ (a, v) # post) \<longrightarrow> heap s' c = heap s c"
    by blast
  have "delete_value_loop v b (n_next bn) s = Some (Return True s')"
    using bnext d0 dn du uv loop
    by (subst delete_value_loop.simps) (simp add: load_def)
  moreover from rest(1) have "path (heap s') p (xs @ (b, w) # (c # pre) @ post) 0"
    unfolding c by simp
  moreover from rest(8)
  have "\<forall>e. e \<notin> fst ` set (xs @ (b, w) # (c # pre) @ (a, v) # post) \<longrightarrow> heap s' e = heap s e"
    unfolding c by simp
  ultimately show ?case
    using rest(2-7) by blast
qed


lemma delete_value_absent:
  assumes cells: "cells s = Some cs" and absent: "v \<notin> snd ` set cs"
  shows "delete_value v s =
           Some (Return False (put_cerr
             (if length' s = 0 then ''Error: delete_value on empty list'' @ [CHR 0x0A]
              else ''Info: value not found'' @ [CHR 0x0A]) s))"
proof -
  from cells have ch: "path (heap s) (head s) cs 0" and len: "length cs = unat (length' s)"
    by (simp_all add: cells_iff)
  show ?thesis
  proof (cases cs)
    case Nil
    with len have "length' s = 0"
      by (simp add: unat_eq_0)
    then show ?thesis
      by (simp add: delete_value_def empty_def)
  next
    case (Cons c ys)
    obtain b w where c: "c = (b, w)" by (cases c)
    from len have nz: "length' s \<noteq> 0"
      unfolding Cons by auto
    from ch obtain bn where hd: "head s = b" "b \<noteq> 0" and bn: "heap s b = Some bn"
      and w: "n_value bn = w" and tl: "path (heap s) (n_next bn) ys 0"
      unfolding Cons c by (auto split: option.splits)
    from absent have wv: "w \<noteq> v" and ys: "v \<notin> snd ` set ys"
      unfolding Cons c by auto
    from tl ys have "delete_value_loop v b (n_next bn) s = Some (Return False s)"
      by (rule delete_value_loop_absent)
    then show ?thesis
      using nz hd bn w wv by (simp add: delete_value_def empty_def load_def)
  qed
qed

lemma delete_value_found:
  assumes cells: "cells s = Some (pre @ (a, v) # post)" and first: "v \<notin> snd ` set pre"
  obtains s' where "delete_value v s = Some (Return True s')"
    and "cells s' = Some (pre @ post)"
    and "length' s' = length' s - 1"
    and "cout s' = cout s" and "cerr s' = cerr s"
    and "freed s' = freed s @ [a]"
    and "heap s' a = None"
    and "\<forall>c. c \<notin> fst ` set (pre @ (a, v) # post) \<longrightarrow> heap s' c = heap s c"
proof -
  from cells have ch: "path (heap s) (head s) (pre @ (a, v) # post) 0"
    and len: "length (pre @ (a, v) # post) = unat (length' s)"
    by (simp_all add: cells_iff)
  from len have nz: "length' s \<noteq> 0"
    by auto
  have dec: "unat (length' s - 1) = length (pre @ post)"
    using nz len [symmetric] by (simp add: unat_pred)
  show ?thesis
  proof (cases pre)
    case Nil
    from ch obtain hn where hd: "head s = a" "a \<noteq> 0" and hn: "heap s a = Some hn"
      and hv: "n_value hn = v"
      unfolding Nil by (auto split: option.splits)
    let ?s = "s\<lparr>head := n_next hn, heap := (heap s)(a := None),
               freed := freed s @ [a], length' := length' s - 1\<rparr>"
    have run: "delete_value v s = Some (Return True ?s)"
      using nz hd hn hv by (simp add: delete_value_def empty_def load_def delete_Node_def)
    have "path ((heap s)(a := None)) (n_next hn) post 0"
      using ch hn unfolding Nil hd(1) append_Nil by (rule chain_drop_head)
    then have "cells ?s = Some (pre @ post)"
      using dec by (simp add: cells_iff Nil)
    with run show ?thesis
      by (rule that) simp_all
  next
    case (Cons c pre')
    obtain b w where c: "c = (b, w)" by (cases c)
    from ch have ch': "path (heap s) (head s) ([] @ (b, w) # pre' @ (a, v) # post) 0"
      unfolding Cons c by simp
    from ch obtain bn where hd: "head s = b" "b \<noteq> 0" and bn: "heap s b = Some bn"
      and w: "n_value bn = w"
      unfolding Cons c by (auto split: option.splits)
    from first have wv: "w \<noteq> v" and pre': "v \<notin> snd ` set pre'"
      unfolding Cons c by auto
    from delete_value_loop_found [OF ch' pre' bn] obtain s' where
      loop: "delete_value_loop v b (n_next bn) s = Some (Return True s')"
      and rest: "path (heap s') (head s) ([] @ (b, w) # pre' @ post) 0"
        "head s' = head s" "length' s' = length' s - 1"
        "cout s' = cout s" "cerr s' = cerr s"
        "freed s' = freed s @ [a]" "heap s' a = None"
        "\<forall>c. c \<notin> fst ` set ([] @ (b, w) # pre' @ (a, v) # post) \<longrightarrow> heap s' c = heap s c"
      by blast
    have run: "delete_value v s = Some (Return True s')"
      using nz hd bn w wv loop by (simp add: delete_value_def empty_def load_def)
    have cells': "cells s' = Some (pre @ post)"
      using rest(1-3) dec by (simp add: cells_iff Cons c)
    have frame: "\<forall>c. c \<notin> fst ` set (pre @ (a, v) # post) \<longrightarrow> heap s' c = heap s c"
      using rest(8) by (simp add: Cons c)
    from run cells' rest(3-7) frame show ?thesis
      by (rule that)
  qed
qed


lemma put_cout_put_cout: "put_cout b (put_cout a s) = put_cout (a @ b) s"
  by (simp add: put_cout_def)

lemma heap_put_cout [simp]: "heap (put_cout a s) = heap s"
  by (simp add: put_cout_def)

lemma print_loop_chain:
  assumes "path (heap s) cur cs 0"
  shows "print_loop cur s = Some (Return () (put_cout (arrows (map snd cs)) s))"
  using assms
proof (induction cs arbitrary: cur s)
  case Nil
  then show ?case
    by (subst print_loop.simps) (simp add: put_cout_def)
next
  case (Cons c cs)
  obtain a v where c: "c = (a, v)" by (cases c)
  from Cons.prems obtain n where cur: "cur = a" "a \<noteq> 0" and n: "heap s a = Some n"
    and v: "n_value n = v" and tl: "path (heap s) (n_next n) cs 0"
    unfolding c by (auto split: option.splits)
  have ld: "load cur s = Some n"
    using cur n by (simp add: load_def)
  show ?case
  proof (cases cs)
    case Nil
    with tl have nx: "n_next n = 0" by simp
    let ?s1 = "put_cout (show_int (sint v)) s"
    have "print_loop 0 ?s1 = Some (Return () ?s1)"
      by (subst print_loop.simps) simp
    then show ?thesis
      using cur ld v nx unfolding c Nil
      by (subst print_loop.simps) simp
  next
    case (Cons d ds)
    with tl have nx: "n_next n \<noteq> 0" by (cases d) auto
    let ?s1 = "put_cout '' -> '' (put_cout (show_int (sint v)) s)"
    have "path (heap ?s1) (n_next n) cs 0"
      using tl by simp
    then have "print_loop (n_next n) ?s1 = Some (Return () (put_cout (arrows (map snd cs)) ?s1))"
      by (rule Cons.IH)
    then show ?thesis
      using cur ld v nx unfolding c Cons
      by (subst print_loop.simps) (simp add: put_cout_put_cout)
  qed
qed

lemma print_spec:
  assumes "cells s = Some cs"
  shows "print s = Some (Return () (put_cout (render (map snd cs) (unat (length' s))) s))"
proof -
  from assms have "path (heap (put_cout ''['' s)) (head s) cs 0"
    by (simp add: cells_iff)
  then have "print_loop (head s) (put_cout ''['' s) =
               Some (Return () (put_cout (arrows (map snd cs)) (put_cout ''['' s)))"
    by (rule print_loop_chain)
  then show ?thesis
    by (simp add: print_def render_def put_cout_def)
qed

lemma leave_enter: "leave (enter k) = k\<lparr>peak := max (peak k) (depth k + 1)\<rparr>"
  by (simp add: leave_def enter_def)

lemma dtor_loop_chain:
  assumes "path (heap s) cur cs 0"
  shows "dtor_loop cur s k =
           Some (Return ()
             (s\<lparr>heap := (\<lambda>a. if a \<in> fst ` set cs then None else heap s a),
                freed := freed s @ map fst cs\<rparr>),
             if cs = [] then k else k\<lparr>peak := max (peak k) (depth k + 1)\<rparr>)"
  using assms
proof (induction cs arbitrary: cur s k)
  case Nil
  then show ?case
    by (subst dtor_loop.simps) simp
next
  case (Cons c cs)
  obtain a v where c: "c = (a, v)" by (cases c)
  from Cons.prems obtain n where cur: "cur = a" "a \<noteq> 0" and n: "heap s a = Some n"
    unfolding c by (auto split: option.splits)
  let ?s1 = "s\<lparr>heap := (heap s)(a := None), freed := freed s @ [a]\<rparr>"
  let ?k1 = "k\<lparr>peak := max (peak k) (depth k + 1)\<rparr>"
  have del: "delete_Node a s = Return () ?s1"
    using cur n by (simp add: delete_Node_def)
  have "path ((heap s)(a := None)) (n_next n) cs 0"
    using Cons.prems n unfolding c cur(1) by (rule chain_drop_head)
  then have "path (heap ?s1) (n_next n) cs 0"
    by simp
  then have "dtor_loop (n_next n) ?s1 ?k1 =
      Some (Return ()
        (?s1\<lparr>heap := (\<lambda>b. if b \<in> fst ` set cs then None else heap ?s1 b),
             freed := freed ?s1 @ map fst cs\<rparr>),
        if cs = [] then ?k1 else ?k1\<lparr>peak := max (peak ?k1) (depth ?k1 + 1)\<rparr>)"
    by (rule Cons.IH)
  moreover have "(\<lambda>b. if b \<in> fst ` set cs then None else heap ?s1 b) =
                 (\<lambda>b. if b \<in> fst ` set ((a, v) # cs) then None else heap s b)"
    by (rule ext) simp
  moreover have "(if cs = [] then ?k1 else ?k1\<lparr>peak := max (peak ?k1) (depth ?k1 + 1)\<rparr>) = ?k1"
    by simp
  ultimately show ?case
    using cur n del unfolding c
    by (subst dtor_loop.simps) (simp add: load_def leave_enter)
qed

lemma recursive_teardown_chain:
  assumes "path (heap s) p cs 0" and "depth k \<le> peak k"
  shows "\<exists>s'. recursive_teardown p s k =
           Some (Return () s', k\<lparr>peak := max (peak k) (depth k + length cs)\<rparr>)
         \<and> heap s' = (\<lambda>a. if a \<in> fst ` set cs then None else heap s a)"
  using assms
proof (induction cs arbitrary: p k)
  case Nil
  then show ?case
    by (subst recursive_teardown.simps) (simp add: max_absorb1)
next
  case (Cons c cs)
  obtain a v where c: "c = (a, v)" by (cases c)
  from Cons.prems(1) obtain n where p: "p = a" "a \<noteq> 0" and n: "heap s a = Some n"
    and tl: "path (heap s) (n_next n) cs 0"
    unfolding c by (auto split: option.splits)
  have notin: "a \<notin> fst ` set cs"
    using Cons.prems(1) unfolding c by (rule chain_head_notin_tail)
  have "depth (enter k) \<le> peak (enter k)"
    by (simp add: enter_def)
  from Cons.IH [OF tl this] obtain s1 where
    inner: "recursive_teardown (n_next n) s (enter k) =
      Some (Return () s1, (enter k)\<lparr>peak := max (peak (enter k)) (depth (enter k) + length cs)\<rparr>)"
    and h1: "heap s1 = (\<lambda>b. if b \<in> fst ` set cs then None else heap s b)"
    by blast
  let ?s' = "s1\<lparr>heap := (heap s1)(a := None), freed := freed s1 @ [a]\<rparr>"
  have del: "delete_Node a s1 = Return () ?s'"
    using p n h1 notin by (simp add: delete_Node_def)
  have stack: "leave ((enter k)\<lparr>peak := max (peak (enter k)) (depth (enter k) + length cs)\<rparr>)
      = k\<lparr>peak := max (peak k) (depth k + length ((a, v) # cs))\<rparr>"
    by (simp add: leave_def enter_def)
  have run: "recursive_teardown p s k =
      Some (Return () ?s', k\<lparr>peak := max (peak k) (depth k + length ((a, v) # cs))\<rparr>)"
    using p n inner del stack
    by (subst recursive_teardown.simps) (simp add: load_def)
  have "heap ?s' = (\<lambda>b. if b \<in> fst ` set ((a, v) # cs) then None else heap s b)"
    using h1 by (auto simp: fun_eq_iff)
  with run show ?case
    unfolding c by blast
qed

lemma recursive_teardown_peak:
  assumes "cells s = Some cs" and "depth k \<le> peak k"
  shows "\<exists>s' k'. recursive_teardown (head s) s k = Some (Return () s', k')
           \<and> peak k' = max (peak k) (depth k + unat (length' s))"
proof -
  from assms have ch: "path (heap s) (head s) cs 0" and len: "length cs = unat (length' s)"
    by (simp_all add: cells_iff)
  from recursive_teardown_chain [OF ch assms(2)] len show ?thesis
    by auto
qed

lemma invariant_iff: "invariant s \<longleftrightarrow> (\<exists>cs. cells s = Some cs)"
proof
  assume "invariant s"
  then show "\<exists>cs. cells s = Some cs"
    by (auto simp: invariant_def split: option.splits)
next
  assume "\<exists>cs. cells s = Some cs"
  then obtain cs where cs: "cells s = Some cs" ..
  then have ch: "path (heap s) (head s) cs 0" and len: "length cs = unat (length' s)"
    by (simp_all add: cells_iff)
  have "distinct (map fst cs)"
    using ch by (rule chain_distinct)
  moreover have "head s = 0 \<longleftrightarrow> length' s = 0"
  proof (cases cs)
    case Nil
    with ch len show ?thesis by (simp add: unat_eq_0)
  next
    case (Cons c cs')
    with ch len show ?thesis by (cases c) auto
  qed
  ultimately show "invariant s"
    using cs by (simp add: invariant_def)
qed

lemma invariant_cells: "cells s = Some cs \<Longrightarrow> invariant s"
  by (auto simp: invariant_iff)

lemma cells_put_cerr [simp]: "cells (put_cerr d s) = cells s"
  by (simp add: cells_def put_cerr_def)

lemma cells_put_cout [simp]: "cells (put_cout d s) = cells s"
  by (simp add: cells_def put_cout_def)

text \<open>What the invariant says about the nodes reachable from \<open>head\<close>.\<close>

lemma successor_null [simp]: "(0, b) \<notin> successor h"
  by (simp add: successor_def)

lemma successor_unique: "(a, b) \<in> successor h \<Longrightarrow> (a, c) \<in> successor h \<Longrightarrow> b = c"
  by (auto simp: successor_def)

lemma reach_plus_chain:
  assumes "path h p ((a, v) # cs) 0"
  shows "{b. (a, b) \<in> (successor h)\<^sup>+} = fst ` set cs"
  using assms
proof (induction cs arbitrary: p a v)
  case Nil
  then obtain n where n: "h a = Some n" "n_next n = 0"
    by (auto split: option.splits)
  have "\<And>b. (a, b) \<notin> successor h"
    using n by (auto simp: successor_def)
  then have "\<And>b. (a, b) \<notin> (successor h)\<^sup>+"
    by (auto elim: converse_tranclE)
  then show ?case by simp
next
  case (Cons c cs)
  obtain d u where c: "c = (d, u)" by (cases c)
  from Cons.prems obtain n where a0: "a \<noteq> 0" and n: "h a = Some n"
    and tl: "path h (n_next n) ((d, u) # cs) 0"
    unfolding c by (auto split: option.splits)
  from tl have nx: "n_next n = d" and d0: "d \<noteq> 0"
    by (auto split: option.splits)
  have step: "(a, d) \<in> successor h"
    using a0 n nx d0 by (simp add: successor_def)
  have ih: "{b. (d, b) \<in> (successor h)\<^sup>+} = fst ` set cs"
    using tl by (rule Cons.IH)
  have "(a, b) \<in> (successor h)\<^sup>+ \<longleftrightarrow> b = d \<or> (d, b) \<in> (successor h)\<^sup>+" for b
  proof
    assume "(a, b) \<in> (successor h)\<^sup>+"
    then obtain z where "(a, z) \<in> successor h" and rest: "(z, b) \<in> (successor h)\<^sup>*"
      by (auto dest: tranclD)
    with step have "z = d"
      by (auto dest: successor_unique)
    with rest show "b = d \<or> (d, b) \<in> (successor h)\<^sup>+"
      by (auto simp: rtrancl_eq_or_trancl)
  next
    assume "b = d \<or> (d, b) \<in> (successor h)\<^sup>+"
    with step show "(a, b) \<in> (successor h)\<^sup>+"
      by (auto intro: trancl_into_trancl2)
  qed
  then have "{b. (a, b) \<in> (successor h)\<^sup>+} = insert d {b. (d, b) \<in> (successor h)\<^sup>+}"
    by auto
  with ih show ?case
    unfolding c by simp
qed

lemma reachable_cells:
  assumes "cells s = Some cs"
  shows "reachable s = fst ` set cs"
proof (cases cs)
  case Nil
  with assms have "head s = 0"
    by (simp add: cells_iff)
  with Nil show ?thesis
    by (simp add: reachable_def)
next
  case (Cons c cs')
  obtain a v where c: "c = (a, v)" by (cases c)
  from assms have ch: "path (heap s) (head s) ((a, v) # cs') 0"
    by (simp add: cells_iff Cons c)
  then have hd: "head s = a" "a \<noteq> 0"
    by (auto split: option.splits)
  have "{b. (a, b) \<in> (successor (heap s))\<^sup>*} = insert a {b. (a, b) \<in> (successor (heap s))\<^sup>+}"
    by (auto simp: rtrancl_eq_or_trancl)
  also have "\<dots> = insert a (fst ` set cs')"
    using reach_plus_chain [OF ch] by simp
  finally show ?thesis
    using hd by (simp add: reachable_def Cons c)
qed

lemma invariant_reachable:
  assumes "invariant s"
  shows "card (reachable s) = unat (length' s)"
    and "\<forall>a \<in> reachable s. a \<noteq> 0 \<and> heap s a \<noteq> None \<and> (a, a) \<notin> (successor (heap s))\<^sup>+"
proof -
  from assms obtain cs where cs: "cells s = Some cs"
    by (auto simp: invariant_iff)
  then have ch: "path (heap s) (head s) cs 0" and len: "length cs = unat (length' s)"
    by (simp_all add: cells_iff)
  have r: "reachable s = set (map fst cs)"
    using cs by (simp add: reachable_cells)
  have dist: "distinct (map fst cs)"
    using ch by (rule chain_distinct)
  have "card (set (map fst cs)) = length (map fst cs)"
    using dist by (rule distinct_card)
  then show "card (reachable s) = unat (length' s)"
    using len by (simp only: r length_map)
  show "\<forall>a \<in> reachable s. a \<noteq> 0 \<and> heap s a \<noteq> None \<and> (a, a) \<notin> (successor (heap s))\<^sup>+"
  proof
    fix a assume "a \<in> reachable s"
    then have mem: "a \<in> fst ` set cs"
      by (simp add: r)
    then obtain v where "(a, v) \<in> set cs" by auto
    then obtain xs ys where split: "cs = xs @ (a, v) # ys"
      by (auto simp: in_set_conv_decomp)
    from ch obtain q where "path (heap s) q ((a, v) # ys) 0"
      unfolding split by (auto simp: path_append)
    then have "{b. (a, b) \<in> (successor (heap s))\<^sup>+} = fst ` set ys"
      by (rule reach_plus_chain)
    moreover have "a \<notin> fst ` set ys"
      using dist unfolding split by auto
    ultimately have "(a, a) \<notin> (successor (heap s))\<^sup>+"
      by blast
    with path_allocated [OF ch mem] show "a \<noteq> 0 \<and> heap s a \<noteq> None \<and> (a, a) \<notin> (successor (heap s))\<^sup>+"
      by simp
  qed
qed

lemma structural_invariants_iff [simp]: "structural_invariants s \<longleftrightarrow> invariant s"
proof
  assume "structural_invariants s"
  then show "invariant s"
    by (simp add: structural_invariants_def)
next
  assume inv: "invariant s"
  then have "head s = 0 \<longleftrightarrow> length' s = 0"
    by (auto simp: invariant_def split: option.splits)
  with inv invariant_reachable [OF inv] show "structural_invariants s"
    by (simp add: structural_invariants_def)
qed

lemma ctor_invariant: "invariant (LinkedList_ctor s)"
  by (simp add: invariant_def cells_def LinkedList_ctor_def)

lemma first_occurrence:
  assumes "v \<in> snd ` set cs"
  obtains pre a post where "cs = pre @ (a, v) # post" and "v \<notin> snd ` set pre"
proof -
  from assms have "\<exists>c \<in> set cs. snd c = v" by auto
  then have "\<exists>pre c post. cs = pre @ c # post \<and> snd c = v \<and> (\<forall>d \<in> set pre. \<not> snd d = v)"
    by (rule split_list_first_prop)
  then obtain pre c post where "cs = pre @ c # post" and "snd c = v"
    and "\<forall>d \<in> set pre. snd d \<noteq> v"
    by blast
  then show ?thesis
    by (intro that [of pre "fst c" post]) auto
qed

lemma cells_length: "cells s = Some cs \<Longrightarrow> length cs = unat (length' s)"
  by (simp add: cells_iff)

lemma attempt_spec:
  assumes "cells s = Some cs"
  shows "\<exists>i d s' cs'. attempt x s = Some (Return (i, d) s') \<and> cells s' = Some cs'
           \<and> length cs' + d = length cs + i"
proof (cases x)
  case (Push_front v)
  from assms show ?thesis
    by (cases rule: push_front_spec [where v = v])
      (auto simp: Push_front count_insert_def assms)
next
  case (Push_back v)
  from assms show ?thesis
    by (cases rule: push_back_spec [where v = v])
      (auto simp: Push_back count_insert_def assms)
next
  case (Insert_at index v)
  show ?thesis
  proof (cases "index \<le> length' s")
    case True
    with assms show ?thesis
    proof (cases rule: insert_at_spec [where v = v])
      case bad_alloc
      with assms show ?thesis
        by (auto simp: Insert_at count_insert_def)
    next
      case (ok a s')
      have "unat index \<le> length cs"
        using True cells_length [OF assms] by (simp add: word_le_nat_alt)
      with ok(3,4) show ?thesis
        by (auto simp: Insert_at count_insert_def)
    qed
  next
    case False
    then have "length' s < index" by simp
    with assms show ?thesis
      by (auto simp: Insert_at count_insert_def insert_at_def)
  qed
next
  case (Delete_at index)
  show ?thesis
  proof (cases "index < length' s")
    case True
    with assms obtain s' where "delete_at index s = Return True s'"
      and "cells s' = Some (take (unat index) cs @ drop (Suc (unat index)) cs)"
      by (rule delete_at_spec)
    moreover have "unat index < length cs"
      using True cells_length [OF assms] by (simp add: word_less_nat_alt)
    ultimately show ?thesis
      by (auto simp: Delete_at count_delete_def)
  next
    case False
    then have "length' s \<le> index" by simp
    with assms show ?thesis
      by (auto simp: Delete_at count_delete_def delete_at_fail)
  qed
next
  case (Delete_value v)
  show ?thesis
  proof (cases "v \<in> snd ` set cs")
    case True
    then obtain pre a post where split: "cs = pre @ (a, v) # post"
      and first: "v \<notin> snd ` set pre"
      by (rule first_occurrence)
    from assms first obtain s' where "delete_value v s = Some (Return True s')"
      and "cells s' = Some (pre @ post)"
      unfolding split by (rule delete_value_found)
    then show ?thesis
      by (auto simp: Delete_value count_delete_def split)
  next
    case False
    with assms show ?thesis
      by (auto simp: Delete_value count_delete_def delete_value_absent)
  qed
next
  case Print
  with assms show ?thesis
    by (auto simp: print_spec)
qed

lemma run_spec:
  assumes "cells s = Some cs"
  shows "\<exists>i d s' cs'. run xs s = Some (Return (i, d) s') \<and> cells s' = Some cs'
           \<and> length cs' + d = length cs + i"
  using assms
proof (induction xs arbitrary: s cs)
  case Nil
  then show ?case by simp
next
  case (Cons x xs)
  from attempt_spec [OF Cons.prems, of x] obtain i d s' cs' where
    step: "attempt x s = Some (Return (i, d) s')" and cells': "cells s' = Some cs'"
    and count: "length cs' + d = length cs + i"
    by blast
  from Cons.IH [OF cells'] obtain i' d' s'' cs'' where
    rest: "run xs s' = Some (Return (i', d') s'')" and cells'': "cells s'' = Some cs''"
    and count': "length cs'' + d' = length cs' + i'"
    by blast
  have "run (x # xs) s = Some (Return (i + i', d + d') s'')"
    using step rest by simp
  moreover have "length cs'' + (d + d') = length cs + (i + i')"
    using count count' by simp
  ultimately show ?case
    using cells'' by blast
qed

lemma render_example: "render [5, 10, 20] 3 = ''[5 -> 10 -> 20] (size=3)'' @ [CHR 0x0A]"
  by code_simp

section \<open>The claims\<close>

text \<open>
  Claim C1. Every public operation (\<open>push_front\<close>, \<open>push_back\<close>, \<open>insert_at\<close>,
  \<open>delete_at\<close>, \<open>delete_value\<close>, \<open>print\<close>) preserves the structural invariants:
  called in a state where \<open>length\<close> is the number of nodes on the chain from \<open>head\<close>,
  the chain has no cycle and ends in \<open>nullptr\<close>, and \<open>head\<close> is \<open>nullptr\<close> exactly when
  \<open>length\<close> is 0, each of them returns or throws (it neither faults nor runs forever)
  and leaves a state where the same holds: \<open>length\<close> is the number of nodes reachable
  from \<open>head\<close> by successor links, each of them is allocated and none reaches itself,
  and \<open>head\<close> is \<open>nullptr\<close> exactly when \<open>length\<close> is 0.
\<close>

theorem operations_preserve_invariant:
  assumes "invariant s"
  shows "keeps_invariant (Some (push_front v s))
       \<and> keeps_invariant (push_back v s)
       \<and> keeps_invariant (insert_at index v s)
       \<and> keeps_invariant (Some (delete_at index s))
       \<and> keeps_invariant (delete_value v s)
       \<and> keeps_invariant (print s)"
proof -
  from assms obtain cs where cs: "cells s = Some cs"
    by (auto simp: invariant_iff)
  have pf: "keeps_invariant (Some (push_front v s))"
    using cs by (cases rule: push_front_spec [where v = v])
      (auto simp: keeps_invariant_def assms intro: invariant_cells)
  have pb: "keeps_invariant (push_back v s)"
    using cs by (cases rule: push_back_spec [where v = v])
      (auto simp: keeps_invariant_def assms intro: invariant_cells)
  have ins: "keeps_invariant (insert_at index v s)"
  proof (cases "index \<le> length' s")
    case True
    with cs show ?thesis
      by (cases rule: insert_at_spec [where v = v])
        (auto simp: keeps_invariant_def assms intro: invariant_cells)
  next
    case False
    then have "length' s < index" by simp
    then show ?thesis
      by (simp add: insert_at_def keeps_invariant_def assms)
  qed
  have del: "keeps_invariant (Some (delete_at index s))"
  proof (cases "index < length' s")
    case True
    with cs obtain s' where "delete_at index s = Return True s'"
      and "cells s' = Some (take (unat index) cs @ drop (Suc (unat index)) cs)"
      by (rule delete_at_spec)
    then show ?thesis
      by (auto simp: keeps_invariant_def intro: invariant_cells)
  next
    case False
    then have "length' s \<le> index" by simp
    then show ?thesis
      using cs by (simp add: delete_at_fail keeps_invariant_def invariant_iff)
  qed
  have delv: "keeps_invariant (delete_value v s)"
  proof (cases "v \<in> snd ` set cs")
    case True
    then obtain pre a post where split: "cs = pre @ (a, v) # post" and first: "v \<notin> snd ` set pre"
      by (rule first_occurrence)
    from cs first obtain s' where "delete_value v s = Some (Return True s')"
      and "cells s' = Some (pre @ post)"
      unfolding split by (rule delete_value_found)
    then show ?thesis
      by (auto simp: keeps_invariant_def intro: invariant_cells)
  next
    case False
    with cs show ?thesis
      by (simp add: delete_value_absent keeps_invariant_def invariant_iff)
  qed
  have pr: "keeps_invariant (print s)"
    using cs by (simp add: print_spec keeps_invariant_def invariant_iff)
  from pf pb ins del delv pr show ?thesis by simp
qed

theorem operations_preserve_invariant_witness:
  "invariant example_list
   \<and> keeps_invariant (Some (push_front 20 example_list))
   \<and> keeps_invariant (push_back 20 example_list)
   \<and> keeps_invariant (insert_at 1 20 example_list)
   \<and> keeps_invariant (Some (delete_at 1 example_list))
   \<and> keeps_invariant (delete_value 20 example_list)
   \<and> keeps_invariant (print example_list)"
proof -
  have inv: "invariant example_list"
    by code_simp
  with operations_preserve_invariant [OF inv, of 20 1] show ?thesis
    by simp
qed

text \<open>
  Claim C2. For every list and every index, \<open>insert_at(index, value)\<close> throws
  \<open>std::out_of_range\<close> if and only if \<open>index > length\<close>. When the index is in range,
  the call returns exactly when its \<open>new Node(value)\<close> returns: then the new node, at
  the address \<open>operator new\<close> gave, is the element at position \<open>index\<close>, the elements
  from that position on have moved back by one and \<open>length\<close> has grown by exactly one;
  it throws \<open>std::bad_alloc\<close>, with the state as it was, only when \<open>operator new\<close> has
  thrown it. \<open>operator new\<close> returns whenever an address is free, so whenever one is,
  \<open>insert_at\<close> with an index in range returns. (So \<open>insert_at(1, 99)\<close> on an empty list
  throws \<open>std::out_of_range\<close> and \<open>insert_at(0, 99)\<close> on an empty list succeeds.)
\<close>

theorem insert_at_out_of_range_iff:
  assumes "cells s = Some cs"
  shows "((\<exists>msg s'. insert_at index v s = Some (Throw (out_of_range msg) s')) \<longleftrightarrow> index > length' s)
       \<and> (index \<le> length' s \<longrightarrow>
            (case new_Node v s of
               Return a t \<Rightarrow>
                 (\<exists>s'. insert_at index v s = Some (Return () s')
                    \<and> cells s' = Some (take (unat index) cs @ (a, v) # drop (unat index) cs)
                    \<and> length' s' = length' s + 1
                    \<and> unat (length' s') = Suc (unat (length' s)))
             | Throw e t \<Rightarrow> insert_at index v s = Some (Throw bad_alloc s)
             | Fault \<Rightarrow> False))
       \<and> (index \<le> length' s \<longrightarrow> (\<exists>b. b \<noteq> 0 \<and> heap s b = None) \<longrightarrow>
            (\<exists>a s'. insert_at index v s = Some (Return () s')
               \<and> cells s' = Some (take (unat index) cs @ (a, v) # drop (unat index) cs)
               \<and> length' s' = length' s + 1
               \<and> unat (length' s') = Suc (unat (length' s))))"
proof -
  have in_range: "case new_Node v s of
               Return a t \<Rightarrow>
                 (\<exists>s'. insert_at index v s = Some (Return () s')
                    \<and> cells s' = Some (take (unat index) cs @ (a, v) # drop (unat index) cs)
                    \<and> length' s' = length' s + 1
                    \<and> unat (length' s') = Suc (unat (length' s)))
             | Throw e t \<Rightarrow> insert_at index v s = Some (Throw bad_alloc s)
             | Fault \<Rightarrow> False"
    if le: "index \<le> length' s"
    using assms le
  proof (cases rule: insert_at_spec [where v = v])
    case bad_alloc
    then show ?thesis by simp
  next
    case (ok a s')
    from assms have "length cs = unat (length' s)"
      by (simp add: cells_iff)
    moreover from ok(4) have "length (take (unat index) cs @ (a, v) # drop (unat index) cs) = unat (length' s')"
      by (simp add: cells_iff)
    moreover have "unat index \<le> length cs"
      using le calculation(1) by (simp add: word_le_nat_alt)
    ultimately have "unat (length' s') = Suc (unat (length' s))"
      by simp
    with ok(3,4,5) show ?thesis
      by (simp add: ok(10))
  qed
  have free: "\<exists>a s'. insert_at index v s = Some (Return () s')
               \<and> cells s' = Some (take (unat index) cs @ (a, v) # drop (unat index) cs)
               \<and> length' s' = length' s + 1
               \<and> unat (length' s') = Suc (unat (length' s))"
    if le: "index \<le> length' s" and b: "b \<noteq> 0" "heap s b = None" for b
  proof -
    from b obtain a where "new_Node v s = Return a (s\<lparr>heap := (heap s)(a \<mapsto> \<lparr>n_value = v, n_next = 0\<rparr>)\<rparr>)"
      by (rule new_Node_returns)
    with in_range [OF le] show ?thesis
      by auto
  qed
  have "(\<exists>msg s'. insert_at index v s = Some (Throw (out_of_range msg) s')) \<longleftrightarrow> index > length' s"
  proof (cases "index > length' s")
    case True
    then show ?thesis
      by (simp add: insert_at_def)
  next
    case False
    then have "index \<le> length' s" by simp
    from in_range [OF this] False show ?thesis
      by (cases "new_Node v s") auto
  qed
  with in_range free show ?thesis
    by blast
qed

theorem insert_at_out_of_range_iff_witness:
  "cells empty_list = Some [] \<and> cells list_1_3 = Some [(1, 1), (2, 3)]
   \<and> (\<exists>msg s'. insert_at 1 99 empty_list = Some (Throw (out_of_range msg) s'))
   \<and> (\<exists>a s'. insert_at 0 99 empty_list = Some (Return () s')
          \<and> cells s' = Some [(a, 99)] \<and> unat (length' s') = 1)
   \<and> (\<exists>s'. insert_at 1 2 list_1_3 = Some (Return () s')
          \<and> cells s' = Some [(1, 1), (3, 2), (2, 3)] \<and> unat (length' s') = 3)
   \<and> (\<exists>msg s'. insert_at 3 2 list_1_3 = Some (Throw (out_of_range msg) s'))"
proof -
  have c: "cells empty_list = Some []"
    by code_simp
  have len: "length' empty_list = 0"
    by (simp add: empty_list_def LinkedList_ctor_def)
  have free: "(1 :: addr) \<noteq> 0 \<and> heap empty_list 1 = None"
    by (simp add: empty_list_def LinkedList_ctor_def)
  have d: "cells list_1_3 = Some [(1, 1), (2, 3)]"
    by code_simp
  have len': "length' list_1_3 = 2"
    by (simp add: list_1_3_def)
  have "find_free (heap list_1_3) 1 = Some 3"
    by (simp add: list_1_3_def)
  then have new: "new_Node 2 list_1_3 =
      Return 3 (list_1_3\<lparr>heap := (heap list_1_3)(3 \<mapsto> \<lparr>n_value = 2, n_next = 0\<rparr>)\<rparr>)"
    by (simp add: new_Node_def)
  from insert_at_out_of_range_iff [OF c, of 1 99] len
  have 1: "\<exists>msg s'. insert_at 1 99 empty_list = Some (Throw (out_of_range msg) s')"
    by simp
  have ex: "\<exists>b. b \<noteq> 0 \<and> heap empty_list b = None"
    using free by blast
  from insert_at_out_of_range_iff [OF c, of 0 99]
  have "0 \<le> length' empty_list \<longrightarrow> (\<exists>b. b \<noteq> 0 \<and> heap empty_list b = None) \<longrightarrow>
      (\<exists>a s'. insert_at 0 99 empty_list = Some (Return () s')
         \<and> cells s' = Some (take (unat (0 :: size_t)) [] @ (a, 99) # drop (unat (0 :: size_t)) [])
         \<and> length' s' = length' empty_list + 1
         \<and> unat (length' s') = Suc (unat (length' empty_list)))"
    by (rule conjunct2 [THEN conjunct2])
  with ex have "\<exists>a s'. insert_at 0 99 empty_list = Some (Return () s')
         \<and> cells s' = Some (take (unat (0 :: size_t)) [] @ (a, 99) # drop (unat (0 :: size_t)) [])
         \<and> length' s' = length' empty_list + 1
         \<and> unat (length' s') = Suc (unat (length' empty_list))"
    by simp
  then have 2: "\<exists>a s'. insert_at 0 99 empty_list = Some (Return () s')
          \<and> cells s' = Some [(a, 99)] \<and> unat (length' s') = 1"
    using len by auto
  from insert_at_out_of_range_iff [OF d, of 1 2] new len'
  have 3: "\<exists>s'. insert_at 1 2 list_1_3 = Some (Return () s')
          \<and> cells s' = Some [(1, 1), (3, 2), (2, 3)] \<and> unat (length' s') = 3"
    by auto
  from insert_at_out_of_range_iff [OF d, of 3 2] len'
  have 4: "\<exists>msg s'. insert_at 3 2 list_1_3 = Some (Throw (out_of_range msg) s')"
    by simp
  from c d 1 2 3 4 show ?thesis
    by simp
qed

text \<open>
  Claim C3. For every list and every index, \<open>delete_at(index)\<close> never throws. If the
  list is empty or \<open>index >= length\<close> it returns \<open>false\<close>, and the state differs from
  the one before only by a non-empty diagnostic appended to \<open>std::cerr\<close>. Otherwise it
  returns \<open>true\<close>, exactly the node at position \<open>index\<close> is gone from the chain and
  released, and \<open>length\<close> is one less.
\<close>

theorem delete_at_never_raises:
  assumes "cells s = Some cs"
  shows "(index \<ge> length' s \<longrightarrow>
            (\<exists>d. d \<noteq> [] \<and> delete_at index s = Return False (put_cerr d s)))
       \<and> (index < length' s \<longrightarrow>
            (\<exists>s'. delete_at index s = Return True s'
               \<and> cells s' = Some (take (unat index) cs @ drop (Suc (unat index)) cs)
               \<and> length' s' = length' s - 1
               \<and> Suc (unat (length' s')) = unat (length' s)
               \<and> freed s' = freed s @ [fst (cs ! unat index)]
               \<and> heap s' (fst (cs ! unat index)) = None))"
proof (intro conjI impI)
  assume "index \<ge> length' s"
  then have "delete_at index s =
      Return False (put_cerr
        (if length' s = 0 then ''Error: delete_at on empty list'' @ [CHR 0x0A]
         else ''Error: index out of range'' @ [CHR 0x0A]) s)"
    by (rule delete_at_fail)
  then show "\<exists>d. d \<noteq> [] \<and> delete_at index s = Return False (put_cerr d s)"
    by (intro exI [of _ "if length' s = 0 then ''Error: delete_at on empty list'' @ [CHR 0x0A]
         else ''Error: index out of range'' @ [CHR 0x0A]"]) simp
next
  assume lt: "index < length' s"
  with assms obtain s' where s': "delete_at index s = Return True s'"
    "cells s' = Some (take (unat index) cs @ drop (Suc (unat index)) cs)"
    "length' s' = length' s - 1"
    "freed s' = freed s @ [fst (cs ! unat index)]"
    "heap s' (fst (cs ! unat index)) = None"
    by (rule delete_at_spec)
  from lt have "length' s \<noteq> 0" by auto
  then have "Suc (unat (length' s')) = unat (length' s)"
    using s'(3) by (simp add: unat_pred unat_gt_0)
  with s' show "\<exists>s'. delete_at index s = Return True s'
               \<and> cells s' = Some (take (unat index) cs @ drop (Suc (unat index)) cs)
               \<and> length' s' = length' s - 1
               \<and> Suc (unat (length' s')) = unat (length' s)
               \<and> freed s' = freed s @ [fst (cs ! unat index)]
               \<and> heap s' (fst (cs ! unat index)) = None"
    by blast
qed

theorem delete_at_never_raises_witness:
  "cells example_list = Some [(3, 5), (1, 10), (2, 20)]
   \<and> (\<exists>d. d \<noteq> [] \<and> delete_at 5 example_list = Return False (put_cerr d example_list))
   \<and> (\<exists>s'. delete_at 1 example_list = Return True s'
          \<and> cells s' = Some [(3, 5), (2, 20)]
          \<and> unat (length' s') = 2 \<and> freed s' = [1] \<and> heap s' 1 = None)"
proof -
  have c: "cells example_list = Some [(3, 5), (1, 10), (2, 20)]"
    by code_simp
  have len: "length' example_list = 3" and fr: "freed example_list = []"
    by (simp_all add: example_list_def)
  from delete_at_never_raises [OF c, of 5] len
  have "\<exists>d. d \<noteq> [] \<and> delete_at 5 example_list = Return False (put_cerr d example_list)"
    by simp
  moreover from delete_at_never_raises [OF c, of 1] len fr
  have "\<exists>s'. delete_at 1 example_list = Return True s'
          \<and> cells s' = Some [(3, 5), (2, 20)]
          \<and> unat (length' s') = 2 \<and> freed s' = [1] \<and> heap s' 1 = None"
    by auto
  ultimately show ?thesis
    using c by simp
qed

text \<open>
  Claim C4. For every list and every value, \<open>delete_value(value)\<close> removes the first
  node, scanning from the front, whose value equals the argument, releases it, makes
  \<open>length\<close> one less and returns \<open>true\<close>. It returns \<open>false\<close> exactly when the list is
  empty or no node holds the value, and then the state differs from the one before only
  by a non-empty diagnostic appended to \<open>std::cerr\<close>.
\<close>

theorem delete_value_removes_first:
  assumes "cells s = Some cs"
  shows "(v \<in> snd ` set cs \<longrightarrow>
            (\<exists>pre a post s'. cs = pre @ (a, v) # post \<and> v \<notin> snd ` set pre
               \<and> delete_value v s = Some (Return True s')
               \<and> cells s' = Some (pre @ post)
               \<and> length' s' = length' s - 1
               \<and> Suc (unat (length' s')) = unat (length' s)
               \<and> freed s' = freed s @ [a]
               \<and> heap s' a = None))
       \<and> (v \<notin> snd ` set cs \<longrightarrow>
            (\<exists>d. d \<noteq> [] \<and> delete_value v s = Some (Return False (put_cerr d s))))
       \<and> ((\<exists>s'. delete_value v s = Some (Return False s')) \<longleftrightarrow> cs = [] \<or> v \<notin> snd ` set cs)"
proof -
  have found: "\<exists>pre a post s'. cs = pre @ (a, v) # post \<and> v \<notin> snd ` set pre
               \<and> delete_value v s = Some (Return True s')
               \<and> cells s' = Some (pre @ post)
               \<and> length' s' = length' s - 1
               \<and> Suc (unat (length' s')) = unat (length' s)
               \<and> freed s' = freed s @ [a]
               \<and> heap s' a = None"
    if "v \<in> snd ` set cs"
  proof -
    from that obtain pre a post where split: "cs = pre @ (a, v) # post"
      and first: "v \<notin> snd ` set pre"
      by (rule first_occurrence)
    from assms first obtain s' where s': "delete_value v s = Some (Return True s')"
      "cells s' = Some (pre @ post)"
      "length' s' = length' s - 1"
      "freed s' = freed s @ [a]"
      "heap s' a = None"
      unfolding split by (rule delete_value_found)
    have "Suc (unat (length' s')) = unat (length' s)"
      using cells_length [OF assms] cells_length [OF s'(2)] by (simp add: split)
    with split first s' show ?thesis by blast
  qed
  have absent: "\<exists>d. d \<noteq> [] \<and> delete_value v s = Some (Return False (put_cerr d s))"
    if "v \<notin> snd ` set cs"
  proof -
    let ?d = "if length' s = 0 then ''Error: delete_value on empty list'' @ [CHR 0x0A]
              else ''Info: value not found'' @ [CHR 0x0A]"
    from assms that have "delete_value v s = Some (Return False (put_cerr ?d s))"
      by (rule delete_value_absent)
    then show ?thesis
      by (intro exI [of _ ?d]) simp
  qed
  have "(\<exists>s'. delete_value v s = Some (Return False s')) \<longleftrightarrow> cs = [] \<or> v \<notin> snd ` set cs"
  proof (cases "v \<in> snd ` set cs")
    case True
    with found show ?thesis by auto
  next
    case False
    with absent show ?thesis by auto
  qed
  with found absent show ?thesis by blast
qed

theorem delete_value_removes_first_witness:
  "cells example_list = Some [(3, 5), (1, 10), (2, 20)]
   \<and> (\<exists>pre a post s'. [(3, 5), (1, 10), (2, 20)] = pre @ (a, 10) # post
          \<and> 10 \<notin> snd ` set pre
          \<and> delete_value 10 example_list = Some (Return True s')
          \<and> cells s' = Some (pre @ post)
          \<and> Suc (unat (length' s')) = unat (length' example_list)
          \<and> freed s' = freed example_list @ [a])
   \<and> (\<exists>d. d \<noteq> [] \<and> delete_value 42 example_list = Some (Return False (put_cerr d example_list)))"
proof -
  have c: "cells example_list = Some [(3, 5), (1, 10), (2, 20)]"
    by code_simp
  from delete_value_removes_first [OF c, of 10]
  have "\<exists>pre a post s'. [(3, 5), (1, 10), (2, 20)] = pre @ (a, 10) # post
          \<and> 10 \<notin> snd ` set pre
          \<and> delete_value 10 example_list = Some (Return True s')
          \<and> cells s' = Some (pre @ post)
          \<and> Suc (unat (length' s')) = unat (length' example_list)
          \<and> freed s' = freed example_list @ [a]"
    by simp blast
  moreover from delete_value_removes_first [OF c, of 42]
  have "\<exists>d. d \<noteq> [] \<and> delete_value 42 example_list = Some (Return False (put_cerr d example_list))"
    by simp
  ultimately show ?thesis
    using c by simp
qed

text \<open>
  Claim C5. For every list and every argument, an operation that fails leaves
  \<open>length\<close> and the chain as they were: when \<open>insert_at\<close> throws, the state is the one
  before the call; when \<open>delete_at\<close> or \<open>delete_value\<close> returns \<open>false\<close>, the chain, its
  values, \<open>length\<close>, \<open>head\<close>, the heap, the released nodes and \<open>std::cout\<close> are the ones
  before the call.
\<close>

theorem failing_operations_change_nothing:
  assumes "cells s = Some cs"
  shows "(insert_at index v s = Some (Throw e s1) \<longrightarrow> s1 = s)
       \<and> (delete_at j s = Return False s2 \<longrightarrow>
             cells s2 = Some cs \<and> length' s2 = length' s \<and> head s2 = head s
             \<and> heap s2 = heap s \<and> freed s2 = freed s \<and> cout s2 = cout s)
       \<and> (delete_value w s = Some (Return False s3) \<longrightarrow>
             cells s3 = Some cs \<and> length' s3 = length' s \<and> head s3 = head s
             \<and> heap s3 = heap s \<and> freed s3 = freed s \<and> cout s3 = cout s)"
proof -
  have only_cerr: "cells t = Some cs \<and> length' t = length' s \<and> head t = head s
      \<and> heap t = heap s \<and> freed t = freed s \<and> cout t = cout s"
    if "t = put_cerr d s" for t d
    using assms that by (simp add: put_cerr_def cells_def)
  have ins: "s1 = s" if thr: "insert_at index v s = Some (Throw e s1)"
  proof (cases "index \<le> length' s")
    case True
    with assms show ?thesis
      using thr by (cases rule: insert_at_spec [where v = v]) simp_all
  next
    case False
    then have "length' s < index" by simp
    with thr show ?thesis
      by (simp add: insert_at_def)
  qed
  have del: "\<exists>d. s2 = put_cerr d s" if fail: "delete_at j s = Return False s2"
  proof (cases "j < length' s")
    case True
    with assms obtain t where "delete_at j s = Return True t"
      by (rule delete_at_spec)
    with fail show ?thesis by simp
  next
    case False
    then have "length' s \<le> j" by simp
    with fail show ?thesis
      by (auto simp: delete_at_fail)
  qed
  have delv: "\<exists>d. s3 = put_cerr d s" if fail: "delete_value w s = Some (Return False s3)"
  proof (cases "w \<in> snd ` set cs")
    case True
    then obtain pre a post where split: "cs = pre @ (a, w) # post"
      and first: "w \<notin> snd ` set pre"
      by (rule first_occurrence)
    from assms first obtain t where "delete_value w s = Some (Return True t)"
      unfolding split by (rule delete_value_found)
    with fail show ?thesis by simp
  next
    case False
    with assms fail show ?thesis
      by (auto simp: delete_value_absent)
  qed
  from ins del delv only_cerr show ?thesis
    by blast
qed

theorem failing_operations_change_nothing_witness:
  "cells example_list = Some [(3, 5), (1, 10), (2, 20)]
   \<and> insert_at 7 99 example_list = Some (Throw (out_of_range ''Index out of range'') example_list)
   \<and> delete_at 7 example_list =
        Return False (put_cerr (''Error: index out of range'' @ [CHR 0x0A]) example_list)
   \<and> delete_value 42 example_list =
        Some (Return False (put_cerr (''Info: value not found'' @ [CHR 0x0A]) example_list))
   \<and> cells (put_cerr (''Error: index out of range'' @ [CHR 0x0A]) example_list)
        = Some [(3, 5), (1, 10), (2, 20)]
   \<and> cells (put_cerr (''Info: value not found'' @ [CHR 0x0A]) example_list)
        = Some [(3, 5), (1, 10), (2, 20)]"
proof -
  have c: "cells example_list = Some [(3, 5), (1, 10), (2, 20)]"
    by code_simp
  have len: "length' example_list = 3"
    by (simp add: example_list_def)
  have ins: "insert_at 7 99 example_list = Some (Throw (out_of_range ''Index out of range'') example_list)"
    by (simp add: insert_at_def len)
  have del: "delete_at 7 example_list =
      Return False (put_cerr (''Error: index out of range'' @ [CHR 0x0A]) example_list)"
    by (simp add: delete_at_fail len)
  have delv: "delete_value 42 example_list =
      Some (Return False (put_cerr (''Info: value not found'' @ [CHR 0x0A]) example_list))"
    using delete_value_absent [OF c, of 42] by (simp add: len)
  from failing_operations_change_nothing [OF c, where index = 7 and v = 99
      and e = "out_of_range ''Index out of range''" and ?s1.0 = example_list
      and j = 7 and ?s2.0 = "put_cerr (''Error: index out of range'' @ [CHR 0x0A]) example_list"
      and w = 42 and ?s3.0 = "put_cerr (''Info: value not found'' @ [CHR 0x0A]) example_list"]
    ins del delv
  have a: "cells (put_cerr (''Error: index out of range'' @ [CHR 0x0A]) example_list)
        = Some [(3, 5), (1, 10), (2, 20)]"
    and b: "cells (put_cerr (''Info: value not found'' @ [CHR 0x0A]) example_list)
        = Some [(3, 5), (1, 10), (2, 20)]"
    by simp_all
  from c ins del delv a b show ?thesis
    by simp
qed

text \<open>
  Claim C6. Starting from an empty list, after \<open>push_back(10)\<close>, \<open>push_back(20)\<close> and
  \<open>push_front(5)\<close> have returned, \<open>print()\<close> returns and writes exactly the text
  \<open>[5 -> 10 -> 20] (size=3)\<close> and a newline to \<open>std::cout\<close>, to which the three calls
  before it have written nothing; the state after \<open>print()\<close> differs from the one before
  only by that text.
\<close>

theorem print_after_three_pushes:
  assumes "push_back 10 (LinkedList_ctor s0) = Some (Return () s1)"
    and "push_back 20 s1 = Some (Return () s2)"
    and "push_front 5 s2 = Return () s3"
  shows "print s3 = Some (Return () (put_cout (''[5 -> 10 -> 20] (size=3)'' @ [CHR 0x0A]) s3))
       \<and> cout s3 = cout s0"
proof -
  have c0: "cells (LinkedList_ctor s0) = Some []"
    by (simp add: cells_def LinkedList_ctor_def)
  have l0: "length' (LinkedList_ctor s0) = 0" and o0: "cout (LinkedList_ctor s0) = cout s0"
    by (simp_all add: LinkedList_ctor_def)
  from c0 obtain a1 where c1: "cells s1 = Some [(a1, 10)]" and l1: "length' s1 = 1"
    and o1: "cout s1 = cout s0"
    using assms(1) l0 o0 by (cases rule: push_back_spec [where v = 10]) auto
  from c1 obtain a2 where c2: "cells s2 = Some [(a1, 10), (a2, 20)]" and l2: "length' s2 = 2"
    and o2: "cout s2 = cout s0"
    using assms(2) l1 o1 by (cases rule: push_back_spec [where v = 20]) auto
  from c2 obtain a3 where c3: "cells s3 = Some [(a3, 5), (a1, 10), (a2, 20)]"
    and l3: "length' s3 = 3" and o3: "cout s3 = cout s0"
    using assms(3) l2 o2 by (cases rule: push_front_spec [where v = 5]) auto
  from print_spec [OF c3] l3
  have p: "print s3 = Some (Return () (put_cout (render [5, 10, 20] 3) s3))"
    by simp
  from p [unfolded render_example] o3 show ?thesis
    by (rule conjI)
qed

theorem print_after_three_pushes_witness:
  "push_back 10 (LinkedList_ctor empty_list) = Some (Return () one_node)
   \<and> push_back 20 one_node = Some (Return () two_nodes)
   \<and> push_front 5 two_nodes = Return () example_list
   \<and> print example_list =
       Some (Return () (put_cout (''[5 -> 10 -> 20] (size=3)'' @ [CHR 0x0A]) example_list))
   \<and> cout example_list = cout empty_list"
proof -
  have f0: "find_free Map.empty 1 = Some 1"
    by simp
  have a: "push_back 10 (LinkedList_ctor empty_list) = Some (Return () one_node)"
    by (simp add: push_back_def new_Node_def empty_list_def LinkedList_ctor_def one_node_def)
  have f1: "find_free (heap one_node) 1 = Some 2"
    by (simp add: one_node_def)
  have "push_back_loop 1 (one_node\<lparr>heap := (heap one_node)(2 \<mapsto> \<lparr>n_value = 20, n_next = 0\<rparr>)\<rparr>)
      = Some (Return 1 (one_node\<lparr>heap := (heap one_node)(2 \<mapsto> \<lparr>n_value = 20, n_next = 0\<rparr>)\<rparr>))"
    by (subst push_back_loop.simps) (simp add: load_def one_node_def)
  then have b: "push_back 20 one_node = Some (Return () two_nodes)"
    using f1 by (simp add: push_back_def new_Node_def store_next_def load_def)
      (simp add: one_node_def two_nodes_def fun_eq_iff)
  have f2: "find_free (heap two_nodes) 1 = Some 3"
    by (simp add: two_nodes_def)
  then have c: "push_front 5 two_nodes = Return () example_list"
    by (simp add: push_front_def new_Node_def store_next_def load_def)
      (simp add: two_nodes_def example_list_def fun_eq_iff)
  from print_after_three_pushes [OF a b c] a b c show ?thesis
    by simp
qed

text \<open>
  Claim C7. For every sequence of operations performed on a newly constructed list,
  every operation returns or throws, and at the end \<open>size()\<close> is the number of
  successful insertions (\<open>push_front\<close>, \<open>push_back\<close>, \<open>insert_at\<close> that returned) minus
  the number of successful deletions (\<open>delete_at\<close>, \<open>delete_value\<close> that returned
  \<open>true\<close>).
\<close>

theorem size_counts_insertions_minus_deletions:
  "\<exists>i d s'. run xs (LinkedList_ctor s0) = Some (Return (i, d) s')
       \<and> d \<le> i \<and> unat (size s') = i - d"
proof -
  have "cells (LinkedList_ctor s0) = Some []"
    by (simp add: cells_def LinkedList_ctor_def)
  from run_spec [OF this, of xs] obtain i d s' cs' where
    "run xs (LinkedList_ctor s0) = Some (Return (i, d) s')" and "cells s' = Some cs'"
    and "length cs' + d = i"
    by auto
  moreover from this(2) have "length cs' = unat (size s')"
    by (simp add: cells_length size_def)
  ultimately show ?thesis
    by (intro exI [of _ i] exI [of _ d] exI [of _ s']) simp
qed

text \<open>
  Claim C8. The diagnostics that the failure paths of \<open>delete_at\<close> and \<open>delete_value\<close>
  write to \<open>std::cerr\<close> differ by category: what \<open>delete_at\<close> and \<open>delete_value\<close> write
  on an empty list (\<open>d1\<close>, \<open>d2\<close>), what \<open>delete_at\<close> writes for an index out of range
  on a non-empty list (\<open>d3\<close>) and what \<open>delete_value\<close> writes for an absent value on a
  non-empty list (\<open>d4\<close>) are non-empty texts, and no text of one category is a text of
  another.
\<close>

theorem diagnostics_differ_by_category:
  assumes "cells s = Some []"
    and "cells t = Some cs" and "cs \<noteq> []" and "j \<ge> length' t" and "w \<notin> snd ` set cs"
  shows "\<exists>d1 d2 d3 d4.
           delete_at i s = Return False (put_cerr d1 s)
         \<and> delete_value v s = Some (Return False (put_cerr d2 s))
         \<and> delete_at j t = Return False (put_cerr d3 t)
         \<and> delete_value w t = Some (Return False (put_cerr d4 t))
         \<and> d1 \<noteq> [] \<and> d2 \<noteq> [] \<and> d3 \<noteq> [] \<and> d4 \<noteq> []
         \<and> d1 \<noteq> d3 \<and> d1 \<noteq> d4 \<and> d2 \<noteq> d3 \<and> d2 \<noteq> d4 \<and> d3 \<noteq> d4"
proof -
  have s0: "length' s = 0"
    using cells_length [OF assms(1)] by (simp add: unat_eq_0)
  have t0: "length' t \<noteq> 0"
    using cells_length [OF assms(2)] assms(3) by auto
  have 1: "delete_at i s = Return False (put_cerr (''Error: delete_at on empty list'' @ [CHR 0x0A]) s)"
    using s0 by (simp add: delete_at_fail)
  have 2: "delete_value v s =
      Some (Return False (put_cerr (''Error: delete_value on empty list'' @ [CHR 0x0A]) s))"
    using delete_value_absent [OF assms(1), of v] s0 by simp
  have 3: "delete_at j t = Return False (put_cerr (''Error: index out of range'' @ [CHR 0x0A]) t)"
    using assms(4) t0 by (simp add: delete_at_fail)
  have 4: "delete_value w t =
      Some (Return False (put_cerr (''Info: value not found'' @ [CHR 0x0A]) t))"
    using delete_value_absent [OF assms(2,5)] t0 by simp
  show ?thesis
    by (intro exI [of _ "''Error: delete_at on empty list'' @ [CHR 0x0A]"]
        exI [of _ "''Error: delete_value on empty list'' @ [CHR 0x0A]"]
        exI [of _ "''Error: index out of range'' @ [CHR 0x0A]"]
        exI [of _ "''Info: value not found'' @ [CHR 0x0A]"] conjI 1 2 3 4) simp_all
qed

theorem diagnostics_differ_by_category_witness:
  "cells empty_list = Some [] \<and> cells example_list = Some [(3, 5), (1, 10), (2, 20)]
   \<and> (\<exists>d1 d2 d3 d4.
           delete_at 0 empty_list = Return False (put_cerr d1 empty_list)
         \<and> delete_value 7 empty_list = Some (Return False (put_cerr d2 empty_list))
         \<and> delete_at 5 example_list = Return False (put_cerr d3 example_list)
         \<and> delete_value 42 example_list = Some (Return False (put_cerr d4 example_list))
         \<and> d1 \<noteq> [] \<and> d2 \<noteq> [] \<and> d3 \<noteq> [] \<and> d4 \<noteq> []
         \<and> d1 \<noteq> d3 \<and> d1 \<noteq> d4 \<and> d2 \<noteq> d3 \<and> d2 \<noteq> d4 \<and> d3 \<noteq> d4)"
proof -
  have e: "cells empty_list = Some []"
    by code_simp
  have c: "cells example_list = Some [(3, 5), (1, 10), (2, 20)]"
    by code_simp
  have r: "(5 :: size_t) \<ge> length' example_list"
    by (simp add: example_list_def)
  have a: "(42 :: cint) \<notin> snd ` set [(3 :: addr, 5), (1, 10), (2, 20)]"
    by simp
  have n: "[(3 :: addr, 5 :: cint), (1, 10), (2, 20)] \<noteq> []"
    by simp
  from diagnostics_differ_by_category [OF e c n r a, of 0 7] e c show ?thesis
    by simp
qed

text \<open>
  Claim C9. Destroying a list that owns \<open>N\<close> nodes, for every \<open>N\<close>, returns and
  releases every one of the \<open>N\<close> nodes exactly once: the addresses the destructor hands
  to \<open>delete\<close> are the \<open>N = length\<close> nodes of the chain in order, no address twice, each
  of them allocated before and none of them after, and nothing else in the heap
  changes. The release does not rely on call-stack depth that grows with \<open>N\<close>: when
  the destructor has returned the stack is as deep as before the call, and during the
  call it was never deeper than two frames above that (the destructor's, and that of
  one \<open>delete\<close>), whatever \<open>N\<close> is.
\<close>

theorem destructor_releases_each_node_once:
  assumes "cells s = Some cs"
  shows "\<exists>s' k'. LinkedList_dtor s k = Some (Return () s', k')
           \<and> freed s' = freed s @ map fst cs
           \<and> length (map fst cs) = unat (length' s)
           \<and> distinct (map fst cs)
           \<and> (\<forall>a \<in> set (map fst cs). heap s a \<noteq> None \<and> heap s' a = None)
           \<and> (\<forall>a. a \<notin> set (map fst cs) \<longrightarrow> heap s' a = heap s a)
           \<and> depth k' = depth k
           \<and> peak k' = max (peak k) (depth k + (if length' s = 0 then 1 else 2))
           \<and> peak k' \<le> max (peak k) (depth k + 2)"
proof -
  from assms have ch: "path (heap s) (head s) cs 0" and len: "length cs = unat (length' s)"
    by (simp_all add: cells_iff)
  let ?s = "s\<lparr>heap := (\<lambda>a. if a \<in> fst ` set cs then None else heap s a),
              freed := freed s @ map fst cs\<rparr>"
  let ?k1 = "if cs = [] then enter k
             else (enter k)\<lparr>peak := max (peak (enter k)) (depth (enter k) + 1)\<rparr>"
  have "dtor_loop (head s) s (enter k) = Some (Return () ?s, ?k1)"
    using ch by (rule dtor_loop_chain)
  then have run: "LinkedList_dtor s k = Some (Return () ?s, leave ?k1)"
    by (simp add: LinkedList_dtor_def)
  have empty_iff: "cs = [] \<longleftrightarrow> length' s = 0"
    using len by (auto simp: unat_eq_0)
  have dist: "distinct (map fst cs)"
    using ch by (rule chain_distinct)
  have alloc: "\<forall>a \<in> set (map fst cs). heap s a \<noteq> None"
    using path_allocated [OF ch] by auto
  have "freed ?s = freed s @ map fst cs"
    and "\<forall>a \<in> set (map fst cs). heap ?s a = None"
    and "\<forall>a. a \<notin> set (map fst cs) \<longrightarrow> heap ?s a = heap s a"
    by simp_all
  moreover have "length (map fst cs) = unat (length' s)"
    using len by simp
  moreover have "depth (leave ?k1) = depth k"
    by (simp add: leave_def enter_def)
  moreover have "peak (leave ?k1) = max (peak k) (depth k + (if length' s = 0 then 1 else 2))"
    using empty_iff by (auto simp: leave_def enter_def)
  moreover have "peak (leave ?k1) \<le> max (peak k) (depth k + 2)"
    by (auto simp: leave_def enter_def)
  ultimately show ?thesis
    using run dist alloc by blast
qed

theorem destructor_releases_each_node_once_witness:
  "cells example_list = Some [(3, 5), (1, 10), (2, 20)]
   \<and> (\<exists>s' k'. LinkedList_dtor example_list \<lparr>depth = 0, peak = 0\<rparr> = Some (Return () s', k')
           \<and> freed s' = [3, 1, 2]
           \<and> heap s' 1 = None \<and> heap s' 2 = None \<and> heap s' 3 = None
           \<and> depth k' = 0 \<and> peak k' = 2)"
proof -
  have c: "cells example_list = Some [(3, 5), (1, 10), (2, 20)]"
    by code_simp
  have fr: "freed example_list = []" and len: "length' example_list = 3"
    by (simp_all add: example_list_def)
  from destructor_releases_each_node_once [OF c, of "\<lparr>depth = 0, peak = 0\<rparr>"]
  obtain s' k' where "LinkedList_dtor example_list \<lparr>depth = 0, peak = 0\<rparr> = Some (Return () s', k')"
    and "freed s' = freed example_list @ map fst [(3 :: addr, 5 :: cint), (1, 10), (2, 20)]"
    and "\<forall>a \<in> set (map fst [(3 :: addr, 5 :: cint), (1, 10), (2, 20)]).
           heap example_list a \<noteq> None \<and> heap s' a = None"
    and "depth k' = depth \<lparr>depth = 0, peak = 0\<rparr>"
    and "peak k' = max (peak \<lparr>depth = 0, peak = 0\<rparr>)
           (depth \<lparr>depth = 0, peak = 0\<rparr> + (if length' example_list = 0 then 1 else 2))"
    by blast
  then have "LinkedList_dtor example_list \<lparr>depth = 0, peak = 0\<rparr> = Some (Return () s', k')
           \<and> freed s' = [3, 1, 2]
           \<and> heap s' 1 = None \<and> heap s' 2 = None \<and> heap s' 3 = None
           \<and> depth k' = 0 \<and> peak k' = 2"
    using fr len by simp
  with c show ?thesis
    by blast
qed

text \<open>
  Claim C10. For every list and every value \<open>v\<close>, when \<open>push_front(v)\<close> has returned,
  \<open>delete_at(0)\<close> returns \<open>true\<close> and restores the list: the chain with its values,
  \<open>length\<close>, \<open>head\<close> and the heap are the ones before the two calls, and nothing has been
  written to either stream.
\<close>

theorem push_front_then_delete_at_0:
  assumes "cells s = Some cs" and "push_front v s = Return () s1"
  shows "\<exists>s2. delete_at 0 s1 = Return True s2
           \<and> cells s2 = Some cs \<and> length' s2 = length' s
           \<and> head s2 = head s \<and> heap s2 = heap s
           \<and> cout s2 = cout s \<and> cerr s2 = cerr s"
  using assms(1)
proof (cases rule: push_front_spec [where v = v])
  case bad_alloc
  with assms(2) show ?thesis by simp
next
  case (ok a)
  let ?h = "(heap s)(a \<mapsto> \<lparr>n_value = v, n_next = head s\<rparr>)"
  from ok(3) assms(2) have s1: "s1 = s\<lparr>heap := ?h, head := a, length' := length' s + 1\<rparr>"
    by simp
  from ok(4) have "unat (length' s + 1) = Suc (length cs)"
    by (simp add: cells_iff)
  then have nz: "length' s + 1 \<noteq> 0"
    by auto
  let ?s2 = "s\<lparr>freed := freed s @ [a]\<rparr>"
  have "?h(a := None) = heap s"
    using ok(2) by (simp add: fun_eq_iff)
  then have "delete_at 0 s1 = Return True ?s2"
    using nz ok(1) by (simp add: s1 delete_at_def empty_def load_def delete_Node_def)
  moreover have "cells ?s2 = Some cs"
    using assms(1) by (simp add: cells_def)
  ultimately show ?thesis
    by (intro exI [of _ ?s2]) simp
qed

theorem push_front_then_delete_at_0_witness:
  "cells two_nodes = Some [(1, 10), (2, 20)]
   \<and> push_front 5 two_nodes = Return () example_list
   \<and> (\<exists>s2. delete_at 0 example_list = Return True s2
           \<and> cells s2 = Some [(1, 10), (2, 20)] \<and> length' s2 = length' two_nodes
           \<and> head s2 = head two_nodes \<and> heap s2 = heap two_nodes)"
proof -
  have c: "cells two_nodes = Some [(1, 10), (2, 20)]"
    by code_simp
  have "find_free (heap two_nodes) 1 = Some 3"
    by (simp add: two_nodes_def)
  then have p: "push_front 5 two_nodes = Return () example_list"
    by (simp add: push_front_def new_Node_def store_next_def load_def)
      (simp add: two_nodes_def example_list_def fun_eq_iff)
  from push_front_then_delete_at_0 [OF c p] c p show ?thesis
    by auto
qed

end
